theory Spec2Isabelle
  imports Complex_Main "HOL-Library.Word"
begin

section \<open>Python values and failures\<close>

text \<open>
  Python integers are unbounded and are modelled as \<open>int\<close>; \<open>//\<close> and \<open>%\<close> are floor
  division and its remainder, which is what \<open>div\<close> and \<open>mod\<close> compute on \<open>int\<close>, except
  that Python raises on a zero divisor.  Every exception the modelled code can raise is a
  value of \<open>py_error\<close>; a fallible computation returns \<open>py_error + 'a\<close>.
\<close>

datatype py_error = ZeroDivisionError | IndexError | MemoryError | OverflowError

definition py_then :: "'e + 'a \<Rightarrow> ('a \<Rightarrow> 'e + 'b) \<Rightarrow> 'e + 'b" where
  "py_then r f = (case r of Inl e \<Rightarrow> Inl e | Inr v \<Rightarrow> f v)"

fun py_map :: "('a \<Rightarrow> 'e + 'b) \<Rightarrow> 'a list \<Rightarrow> 'e + 'b list" where
  "py_map f [] = Inr []"
| "py_map f (a # as) = py_then (f a) (\<lambda>b. py_then (py_map f as) (\<lambda>bs. Inr (b # bs)))"

definition py_floordiv :: "int \<Rightarrow> int \<Rightarrow> py_error + int" where
  "py_floordiv a b = (if b = 0 then Inl ZeroDivisionError else Inr (a div b))"

definition py_mod :: "int \<Rightarrow> int \<Rightarrow> py_error + int" where
  "py_mod a b = (if b = 0 then Inl ZeroDivisionError else Inr (a mod b))"

definition py_getitem :: "'a list \<Rightarrow> int \<Rightarrow> py_error + 'a" where
  \<comment> \<open>\<open>xs[i]\<close>: a negative index counts from the end, out of range raises.\<close>
  "py_getitem xs i =
     (let n = int (length xs); k = (if i < 0 then i + n else i)
      in if 0 \<le> k \<and> k < n then Inr (xs ! nat k) else Inl IndexError)"

section \<open>Gradient colour map (gradient\_overlay\_simple.py)\<close>

text \<open>
  A colour stop is the JSON object \<open>{position, color}\<close>; positions are floats in the
  source and exact rationals here.  The two agree on comparisons and on the interpolation
  factors 0 and 1, the only ones the theorems below evaluate.
\<close>

record color_stop =
  position :: rat
  color :: "int list"

record gradient =
  name :: string
  stops :: "color_stop list"

type_synonym uint8 = "8 word"

definition np_clip :: "rat \<Rightarrow> rat \<Rightarrow> rat \<Rightarrow> rat" where
  "np_clip v lo hi = min (max v lo) hi"

definition py_int :: "rat \<Rightarrow> int" where
  \<comment> \<open>\<open>int(v)\<close> of a float truncates towards zero.\<close>
  "py_int v = (if 0 \<le> v then \<lfloor>v\<rfloor> else \<lceil>v\<rceil>)"

definition interpolate_channel :: "color_stop \<Rightarrow> color_stop \<Rightarrow> rat \<Rightarrow> int \<Rightarrow> py_error + int" where
  "interpolate_channel stop1 stop2 t j =
     py_then (py_getitem (color stop1) j) (\<lambda>c1.
     py_then (py_getitem (color stop2) j) (\<lambda>c2.
       let interpolated = of_int c1 + t * of_int (c2 - c1)
       in Inr (py_int (np_clip interpolated 0 255))))"

fun interpolate_pairs :: "color_stop list \<Rightarrow> rat \<Rightarrow> py_error + int list" where
  "interpolate_pairs [] pos = Inl IndexError"
| "interpolate_pairs [last_stop] pos = Inr (take 3 (color last_stop))"
| "interpolate_pairs (stop1 # stop2 # rest) pos =
     (if pos \<le> position stop2 then
        (if position stop1 = position stop2 then Inr (color stop1)
         else
           let t = (pos - position stop1) / (position stop2 - position stop1)
           in py_map (interpolate_channel stop1 stop2 t) [0, 1, 2])
      else interpolate_pairs (stop2 # rest) pos)"

definition interpolate_gradient_color :: "color_stop list \<Rightarrow> rat \<Rightarrow> py_error + int list" where
  "interpolate_gradient_color stops_list pos =
     interpolate_pairs stops_list (max 0 (min 1 pos))"

definition luminance :: "int \<Rightarrow> rat" where
  "luminance i = of_int i / 255"

definition np_uint8_store :: "int \<Rightarrow> py_error + uint8" where
  \<comment> \<open>Storing a Python integer into a \<open>uint8\<close> array: out of range raises.\<close>
  "np_uint8_store c = (if 0 \<le> c \<and> c \<le> 255 then Inr (word_of_int c) else Inl OverflowError)"

definition lut_entry :: "color_stop list \<Rightarrow> int \<Rightarrow> py_error + uint8 list" where
  \<comment> \<open>One round of the 256-step loop: the row \<open>(b_lut[i], g_lut[i], r_lut[i])\<close>.\<close>
  "lut_entry stops_list i =
     py_then (interpolate_gradient_color stops_list (luminance i)) (\<lambda>col.
     py_then (py_getitem col 2) (\<lambda>b.
     py_then (np_uint8_store b) (\<lambda>b8.
     py_then (py_getitem col 1) (\<lambda>g.
     py_then (np_uint8_store g) (\<lambda>g8.
     py_then (py_getitem col 0) (\<lambda>r.
     py_then (np_uint8_store r) (\<lambda>r8.
       Inr [b8, g8, r8])))))))"

definition build_lut :: "color_stop list \<Rightarrow> py_error + uint8 list list" where
  "build_lut stops_list = py_map (lut_entry stops_list) [0..255]"

definition lut_at :: "color_stop list \<Rightarrow> int \<Rightarrow> py_error + int list" where
  \<comment> \<open>\<open>buildLUT(stops)[k]\<close>: row \<open>k\<close> of the table, its three bytes read as integers.\<close>
  "lut_at stops_list k =
     py_then (build_lut stops_list) (\<lambda>lut.
     py_then (py_getitem lut k) (\<lambda>row. Inr (map uint row)))"

record gradient_overlay_simple =
  gradients :: "gradient list"
  current_gradient_index :: int
  current_gradient_lut :: "uint8 list list option"

definition generate_current_lut ::
  "gradient_overlay_simple \<Rightarrow> py_error + gradient_overlay_simple" where
  "generate_current_lut gs =
     (if gradients gs = [] then Inr gs
      else
        py_then (py_getitem (gradients gs) (current_gradient_index gs)) (\<lambda>g.
        py_then (build_lut (stops g)) (\<lambda>lut.
          Inr (gs\<lparr>current_gradient_lut := Some lut\<rparr>))))"

section \<open>Reference algorithm (ki\_alternate\_algorithm.py)\<close>

definition max_grid :: "int \<Rightarrow> int \<Rightarrow> py_error + int" where
  \<comment> \<open>\<open>image_width // (2 * q) + 2 if q > 0 else 2\<close>\<close>
  "max_grid q image_dim =
     (if q > 0 then py_then (py_floordiv image_dim (2 * q)) (\<lambda>d. Inr (d + 2)) else Inr 2)"

definition type1_centers :: "int \<Rightarrow> int \<Rightarrow> int \<Rightarrow> (int \<times> int) list" where
  "type1_centers q max_grid_x max_grid_y =
     concat (map (\<lambda>grid_y. map (\<lambda>grid_x. (2 * grid_x * q, 2 * grid_y * q)) [- 1..max_grid_x])
                 [- 1..max_grid_y])"

definition type2_centers :: "int \<Rightarrow> int \<Rightarrow> int \<Rightarrow> (int \<times> int) list" where
  "type2_centers q max_grid_x max_grid_y =
     concat (map (\<lambda>grid_y. map (\<lambda>grid_x. ((2 * grid_x + 1) * q, (2 * grid_y + 1) * q))
                                 [- 1..max_grid_x])
                 [- 1..max_grid_y])"

definition possible_centers :: "int \<Rightarrow> int \<Rightarrow> int \<Rightarrow> (int \<times> int) list" where
  "possible_centers q max_grid_x max_grid_y =
     type1_centers q max_grid_x max_grid_y @ type2_centers q max_grid_x max_grid_y"

definition manhattan :: "int \<Rightarrow> int \<Rightarrow> int \<times> int \<Rightarrow> int" where
  "manhattan x y c = \<bar>x - fst c\<bar> + \<bar>y - snd c\<bar>"

fun nearest_loop ::
  "int \<Rightarrow> int \<Rightarrow> (int \<times> int) list \<Rightarrow> int option \<Rightarrow> (int \<times> int) list \<Rightarrow> (int \<times> int) list" where
  \<comment> \<open>The scan over \<open>possible_centers\<close>; \<open>min_distance = None\<close> stands for \<open>float('inf')\<close>.\<close>
  "nearest_loop x y [] min_distance nearest_centers = nearest_centers"
| "nearest_loop x y (c # cs) min_distance nearest_centers =
     (let distance = manhattan x y c in
      if (case min_distance of None \<Rightarrow> True | Some m \<Rightarrow> distance < m)
      then nearest_loop x y cs (Some distance) [c]
      else if min_distance = Some distance
      then nearest_loop x y cs min_distance (nearest_centers @ [c])
      else nearest_loop x y cs min_distance nearest_centers)"

definition find_nearest_center ::
  "int \<Rightarrow> int \<Rightarrow> int \<Rightarrow> int \<Rightarrow> int \<Rightarrow> py_error + (int \<times> int) option" where
  "find_nearest_center x y pixel_width image_width image_height =
     (let p = pixel_width; q = (p - 1) div 2 in
      py_then (max_grid q image_width) (\<lambda>max_grid_x.
      py_then (max_grid q image_height) (\<lambda>max_grid_y.
        let nearest_centers =
              nearest_loop x y (possible_centers q max_grid_x max_grid_y) None []
        in if length nearest_centers > 1 then Inr None
           else Inr (Some (case nearest_centers of [] \<Rightarrow> (0, 0) | c # _ \<Rightarrow> c)))))"

definition center_type_flip :: "int \<Rightarrow> int \<times> int \<Rightarrow> bool \<Rightarrow> py_error + bool" where
  \<comment> \<open>Step 4 of \<open>should_invert_pixel\<close>: flip the decision at a Type-2 centre.\<close>
  "center_type_flip q c is_invert =
     (if q > 0 then
        py_then (py_floordiv (fst c) q) (\<lambda>kx.
          if kx mod 2 = 1 then
            py_then (py_floordiv (snd c) q) (\<lambda>ky.
              Inr (if ky mod 2 = 1 then \<not> is_invert else is_invert))
          else Inr is_invert)
      else Inr is_invert)"

definition should_invert_pixel ::
  "int \<Rightarrow> int \<Rightarrow> int \<Rightarrow> int \<Rightarrow> int \<Rightarrow> int \<Rightarrow> py_error + bool" where
  "should_invert_pixel x y time pixel_width image_width image_height =
     py_then (find_nearest_center x y pixel_width image_width image_height) (\<lambda>center.
       case center of
         None \<Rightarrow> Inr False
       | Some c \<Rightarrow>
           let distance = manhattan x y c;
               threshold = time div 2;
               is_invert = (distance \<le> threshold);
               q = (pixel_width - 1) div 2
           in center_type_flip q c is_invert)"

definition generate_mask :: "nat \<Rightarrow> nat \<Rightarrow> int \<Rightarrow> int \<Rightarrow> py_error + bool list list" where
  "generate_mask width height time pixel_width =
     py_map (\<lambda>y. py_map (\<lambda>x. should_invert_pixel x y time pixel_width (int width) (int height))
                         [0..int width - 1])
            [0..int height - 1]"

section \<open>Per-pixel search kept inside KiAlt (ki\_alt.py)\<close>

definition KiAlt_find_nearest_center ::
  "int \<Rightarrow> int \<Rightarrow> int \<Rightarrow> int \<Rightarrow> int \<Rightarrow> py_error + int \<times> int" where
  "KiAlt_find_nearest_center x y pixel_width image_width image_height =
     (let p = pixel_width; q = (p - 1) div 2 in
      if q \<le> 0 then Inr (0, 0)
      else
        py_then (py_floordiv image_width (2 * q)) (\<lambda>dx.
        py_then (py_floordiv image_height (2 * q)) (\<lambda>dy.
          let max_grid_x = dx + 2; max_grid_y = dy + 2;
              nearest_centers =
                nearest_loop x y (possible_centers q max_grid_x max_grid_y) None []
          in (case nearest_centers of [c] \<Rightarrow> Inr c | _ \<Rightarrow> Inr (0, 0)))))"

definition KiAlt_should_invert_pixel_try ::
  "int \<Rightarrow> int \<Rightarrow> int \<Rightarrow> int \<Rightarrow> int \<Rightarrow> int \<Rightarrow> py_error + bool" where
  "KiAlt_should_invert_pixel_try x y time_param pixel_width image_width image_height =
     py_then (KiAlt_find_nearest_center x y pixel_width image_width image_height) (\<lambda>c.
       let distance = manhattan x y c;
           threshold = time_param div 2;
           is_invert = (distance \<le> threshold);
           q = (pixel_width - 1) div 2
       in center_type_flip q c is_invert)"

definition KiAlt_should_invert_pixel ::
  "int \<Rightarrow> int \<Rightarrow> int \<Rightarrow> int \<Rightarrow> int \<Rightarrow> int \<Rightarrow> bool" where
  \<comment> \<open>\<open>except Exception: return False\<close>\<close>
  "KiAlt_should_invert_pixel x y time_param pixel_width image_width image_height =
     (case KiAlt_should_invert_pixel_try x y time_param pixel_width image_width image_height of
        Inr b \<Rightarrow> b
      | Inl e \<Rightarrow> False)"

section \<open>Closed-form mask of KiAlt (ki\_alt.py)\<close>

definition np_zeros :: "nat \<Rightarrow> nat \<Rightarrow> bool list list" where
  "np_zeros height width = replicate height (replicate width False)"

definition np_meshgrid :: "py_error option \<Rightarrow> nat \<Rightarrow> nat \<Rightarrow> py_error + (int \<times> int) list list" where
  \<comment> \<open>The coordinate grids \<open>Y, X\<close>, as one grid of pairs \<open>(X, Y)\<close>.  The first argument is
      the exception the array library raises instead, if any.\<close>
  "np_meshgrid fault height width =
     (case fault of
        Some e \<Rightarrow> Inl e
      | None \<Rightarrow> Inr (map (\<lambda>y. map (\<lambda>x. (x, y)) [0..int width - 1]) [0..int height - 1]))"

definition int64 :: "int \<Rightarrow> int" where
  \<comment> \<open>The coordinate arrays are \<open>int64\<close>: every array operation wraps around.\<close>
  "int64 v = (v + 2 ^ 63) mod 2 ^ 64 - 2 ^ 63"

definition manhattan64 :: "int \<Rightarrow> int \<Rightarrow> int \<times> int \<Rightarrow> int" where
  \<comment> \<open>\<open>np.abs(X - center_x) + np.abs(Y - center_y)\<close>\<close>
  "manhattan64 X Y c = int64 (int64 \<bar>int64 (X - fst c)\<bar> + int64 \<bar>int64 (Y - snd c)\<bar>)"

definition center1 :: "int \<Rightarrow> int \<Rightarrow> int \<Rightarrow> int \<times> int" where
  "center1 q cell_x cell_y = (int64 (cell_x * (2 * q)), int64 (cell_y * (2 * q)))"

definition center2 :: "int \<Rightarrow> int \<Rightarrow> int \<Rightarrow> int \<times> int" where
  "center2 q cell_x cell_y = (int64 (int64 (cell_x + 1) * (2 * q)), int64 (cell_y * (2 * q)))"

definition center3 :: "int \<Rightarrow> int \<Rightarrow> int \<Rightarrow> int \<times> int" where
  "center3 q cell_x cell_y = (int64 (cell_x * (2 * q)), int64 (int64 (cell_y + 1) * (2 * q)))"

definition center4 :: "int \<Rightarrow> int \<Rightarrow> int \<Rightarrow> int \<times> int" where
  "center4 q cell_x cell_y =
     (int64 (int64 (cell_x + 1) * (2 * q)), int64 (int64 (cell_y + 1) * (2 * q)))"

definition center5 :: "int \<Rightarrow> int \<Rightarrow> int \<Rightarrow> int \<times> int" where
  "center5 q cell_x cell_y =
     (int64 (int64 (int64 (cell_x * 2) + 1) * q), int64 (int64 (int64 (cell_y * 2) + 1) * q))"

definition min_dist5 :: "int \<Rightarrow> int \<Rightarrow> int \<Rightarrow> int" where
  \<comment> \<open>\<open>min_dist\<close>: the least distance to the five candidate centres of the pixel's cell.\<close>
  "min_dist5 q X Y =
     (let cell_x = X div (2 * q); cell_y = Y div (2 * q);
          dist1 = manhattan64 X Y (center1 q cell_x cell_y);
          dist2 = manhattan64 X Y (center2 q cell_x cell_y);
          dist3 = manhattan64 X Y (center3 q cell_x cell_y);
          dist4 = manhattan64 X Y (center4 q cell_x cell_y);
          dist5 = manhattan64 X Y (center5 q cell_x cell_y)
      in min (min (min dist1 dist2) (min dist3 dist4)) dist5)"

definition dist5 :: "int \<Rightarrow> int \<Rightarrow> int \<Rightarrow> int" where
  \<comment> \<open>\<open>dist5\<close>: the distance to the Type-2 centre of the pixel's cell.\<close>
  "dist5 q X Y =
     (let cell_x = X div (2 * q); cell_y = Y div (2 * q)
      in manhattan64 X Y (center5 q cell_x cell_y))"

definition pattern_mask_at :: "int \<Rightarrow> int \<Rightarrow> int \<Rightarrow> int \<times> int \<Rightarrow> bool" where
  \<comment> \<open>The entry of \<open>pattern_mask\<close> at pixel \<open>(X, Y)\<close>, before the cycle flip.\<close>
  "pattern_mask_at q time_param pixel_width xy =
     (let X = fst xy; Y = snd xy;
          min_dist = min_dist5 q X Y;
          is_type2_nearest = (dist5 q X Y = min_dist);
          effective_time = time_param mod pixel_width;
          threshold = effective_time div 2;
          base_invert = (min_dist \<le> threshold)
      in if is_type2_nearest then \<not> base_invert else base_invert)"

subsection \<open>The effect instance and its control surface\<close>

record ki_alt =
  active :: bool
  global_frame_counter :: int
  pixel_width :: int
  min_pixel_width :: int
  max_pixel_width :: int
  time_multiplier :: int
  gradient_opacity :: int
  invert_mask :: "bool list list option"
  cached_frame_size :: "(nat \<times> nat) option"
  gradient_system :: gradient_overlay_simple

definition ki_alt_init :: "gradient_overlay_simple \<Rightarrow> ki_alt" where
  \<comment> \<open>\<open>KiAlt.__init__\<close>; the gradient system is whatever was loaded from disk.\<close>
  "ki_alt_init gs =
     \<lparr>active = True, global_frame_counter = 0, pixel_width = 19,
      min_pixel_width = 9, max_pixel_width = 199, time_multiplier = 1,
      gradient_opacity = 100, invert_mask = None, cached_frame_size = None,
      gradient_system = gs\<rparr>"

datatype py_value = PyBool bool | PyInt int

fun py_bool :: "py_value \<Rightarrow> bool" where
  "py_bool (PyBool b) = b"
| "py_bool (PyInt i) = (i \<noteq> 0)"

fun py_int_of :: "py_value \<Rightarrow> int" where
  "py_int_of (PyBool b) = (if b then 1 else 0)"
| "py_int_of (PyInt i) = i"

definition set_parameter :: "string \<Rightarrow> py_value \<Rightarrow> ki_alt \<Rightarrow> bool \<times> ki_alt" where
  "set_parameter nm v s =
     (if nm = ''active'' then (True, s\<lparr>active := py_bool v\<rparr>)
      else if nm = ''toggle'' then (True, s\<lparr>active := \<not> active s\<rparr>)
      else if nm = ''reset_counter'' then (True, s\<lparr>global_frame_counter := 0\<rparr>)
      else if nm = ''pixel_width'' then
        (let new_value = max (min_pixel_width s) (min (max_pixel_width s) (py_int_of v))
         in (True, if new_value \<noteq> pixel_width s then s\<lparr>pixel_width := new_value\<rparr> else s))
      else (False, s))"

definition step_gradient :: "int \<Rightarrow> ki_alt \<Rightarrow> py_error + bool \<times> ki_alt" where
  \<comment> \<open>The left/right arrow branches: move the preset index and rebuild the table.\<close>
  "step_gradient d s =
     (let gs = gradient_system s in
      if gradients gs = [] then Inr (True, s)
      else
        py_then (py_mod (current_gradient_index gs + d) (int (length (gradients gs)))) (\<lambda>i.
        py_then (generate_current_lut (gs\<lparr>current_gradient_index := i\<rparr>)) (\<lambda>gs'.
          Inr (True, s\<lparr>gradient_system := gs'\<rparr>))))"

definition handle_key_press :: "int \<Rightarrow> ki_alt \<Rightarrow> py_error + bool \<times> ki_alt" where
  \<comment> \<open>Key codes: \<open>ord('s') = 115\<close>, \<open>ord('r') = 114\<close>, \<open>ord('+') = 43\<close>, \<open>ord('=') = 61\<close>,
      \<open>ord('-') = 45\<close>, \<open>ord(']') = 93\<close>, \<open>ord('[') = 91\<close>; 0 to 3 are the arrow keys.\<close>
  "handle_key_press key s =
     (if key = 115 then Inr (True, snd (set_parameter ''toggle'' (PyBool True) s))
      else if key = 114 then Inr (True, snd (set_parameter ''reset_counter'' (PyBool True) s))
      else if key = 0 then
        (let new_width = pixel_width s + 10
         in Inr (True, snd (set_parameter ''pixel_width'' (PyInt new_width) s)))
      else if key = 1 then
        (let new_width = pixel_width s - 10
         in Inr (True, snd (set_parameter ''pixel_width'' (PyInt new_width) s)))
      else if key = 2 then step_gradient (- 1) s
      else if key = 3 then step_gradient 1 s
      else if key = 43 \<or> key = 61 then Inr (True, s\<lparr>time_multiplier := time_multiplier s + 1\<rparr>)
      else if key = 45 then Inr (True, s\<lparr>time_multiplier := max 1 (time_multiplier s - 1)\<rparr>)
      else if key = 93 then
        (let o1 = gradient_opacity s + 1
         in Inr (True, s\<lparr>gradient_opacity := (if o1 > 100 then - 100 else o1)\<rparr>))
      else if key = 91 then
        (let o1 = gradient_opacity s - 1
         in Inr (True, s\<lparr>gradient_opacity := (if o1 < - 100 then 100 else o1)\<rparr>))
      else Inr (False, s))"

fun press_keys :: "int list \<Rightarrow> ki_alt \<Rightarrow> py_error + ki_alt" where
  \<comment> \<open>The dispatcher delivering key presses one after the other; an exception ends it.\<close>
  "press_keys [] s = Inr s"
| "press_keys (k # ks) s = py_then (handle_key_press k s) (\<lambda>(handled, s'). press_keys ks s')"

definition mask_direct_try ::
  "py_error option \<Rightarrow> nat \<times> nat \<Rightarrow> int \<Rightarrow> int \<Rightarrow> int \<Rightarrow> ki_alt \<Rightarrow> py_error + ki_alt" where
  \<comment> \<open>The \<open>try\<close> block of \<open>_generate_ki_alternate_mask_direct\<close>.  The Python integer
      \<open>2 * q\<close> meets an \<open>int64\<close> array in \<open>X // (2 * q)\<close>; one that does not fit raises.\<close>
  "mask_direct_try fault frame_shape time_param pixel_width' frame_counter s =
     (let height = fst frame_shape; width = snd frame_shape in
      if pixel_width' \<le> 0 \<or> time_param < 0
      then Inr (s\<lparr>invert_mask := Some (np_zeros height width)\<rparr>)
      else
        let q = (pixel_width' - 1) div 2 in
        if q \<le> 0 then Inr (s\<lparr>invert_mask := Some (np_zeros height width)\<rparr>)
        else
          py_then (np_meshgrid fault height width) (\<lambda>grid.
            if 2 ^ 63 \<le> 2 * q then Inl OverflowError
            else
              let pattern_mask = map (map (pattern_mask_at q time_param pixel_width')) grid;
                  cycle_number = frame_counter div pixel_width';
                  flipped = (if cycle_number mod 2 = 1 then map (map Not) pattern_mask
                             else pattern_mask)
              in Inr (s\<lparr>invert_mask := Some flipped, cached_frame_size := Some frame_shape\<rparr>)))"

definition generate_ki_alternate_mask_direct ::
  "py_error option \<Rightarrow> nat \<times> nat \<Rightarrow> int \<Rightarrow> int \<Rightarrow> int \<Rightarrow> ki_alt \<Rightarrow> ki_alt" where
  "generate_ki_alternate_mask_direct fault frame_shape time_param pixel_width' frame_counter s =
     (case mask_direct_try fault frame_shape time_param pixel_width' frame_counter s of
        Inr s' \<Rightarrow> s'
      | Inl e \<Rightarrow>
          s\<lparr>invert_mask := Some (np_zeros (fst frame_shape) (snd frame_shape)),
            cached_frame_size := Some frame_shape\<rparr>)"

section \<open>Compositing (KiAlt.process\_frame)\<close>

type_synonym pixel = "uint8 list"
type_synonym frame = "pixel list list"

definition shape :: "'a list list \<Rightarrow> nat \<times> nat" where
  "shape fr = (length fr, case fr of [] \<Rightarrow> 0 | r # _ \<Rightarrow> length r)"

definition np_clip_int :: "int \<Rightarrow> int \<Rightarrow> int \<Rightarrow> int" where
  "np_clip_int v lo hi = min (max v lo) hi"

definition blend :: "rat \<Rightarrow> pixel \<Rightarrow> uint8 list \<Rightarrow> pixel" where
  \<comment> \<open>\<open>(1.0 - opacity) * original + opacity * gradient\<close>, stored back into the 8-bit frame.
      Exact arithmetic stands for the floats; both give the same at opacity 0 and 1.\<close>
  "blend opacity original grad =
     map2 (\<lambda>a b. word_of_int (py_int ((1 - opacity) * of_int (uint a) + opacity * of_int (uint b))))
          original grad"

definition gradient_pixel ::
  "uint8 list list \<Rightarrow> rat \<Rightarrow> rat \<Rightarrow> (pixel \<times> uint8) \<times> bool \<Rightarrow> py_error + pixel" where
  "gradient_pixel lut i_opacity o_opacity pgm =
     (let original = fst (fst pgm); gray = snd (fst pgm); is_i = snd pgm;
          luminance_value = np_clip_int (uint gray) 0 (int (length lut) - 1)
      in py_then (py_getitem lut luminance_value) (\<lambda>grad.
           Inr (blend (if is_i then i_opacity else o_opacity) original grad)))"

definition invert_pixel :: "pixel \<times> bool \<Rightarrow> pixel" where
  "invert_pixel pm = (if snd pm then map (\<lambda>v. 255 - v) (fst pm) else fst pm)"

definition gradient_row ::
  "uint8 list list \<Rightarrow> rat \<Rightarrow> rat \<Rightarrow> (pixel list \<times> uint8 list) \<times> bool list \<Rightarrow> py_error + pixel list" where
  "gradient_row lut i_opacity o_opacity rgm =
     py_map (gradient_pixel lut i_opacity o_opacity) (zip (zip (fst (fst rgm)) (snd (fst rgm))) (snd rgm))"

definition invert_row :: "pixel list \<times> bool list \<Rightarrow> pixel list" where
  "invert_row rm = map invert_pixel (zip (fst rm) (snd rm))"

definition process_frame ::
  "py_error option \<Rightarrow> uint8 list list \<Rightarrow> frame option \<Rightarrow> ki_alt \<Rightarrow>
     py_error + frame option \<times> ki_alt" where
  \<comment> \<open>The first argument is the fault of the array library during mask generation, if any;
      the second is the luminance plane \<open>cv2.cvtColor(result, cv2.COLOR_BGR2GRAY)\<close>.\<close>
  "process_frame fault gray frame_opt s =
     (case frame_opt of
        None \<Rightarrow> Inr (None, s)
      | Some fr \<Rightarrow>
          if \<not> active s then Inr (Some fr, s)
          else
            let s1 = s\<lparr>global_frame_counter := global_frame_counter s + 1\<rparr>;
                clock = global_frame_counter s1 * time_multiplier s1
            in py_then (py_mod clock (pixel_width s1)) (\<lambda>time.
                 let s2 = generate_ki_alternate_mask_direct fault (shape fr) time
                            (pixel_width s1) clock s1
                 in case invert_mask s2 of
                      None \<Rightarrow> Inr (Some fr, s2)
                    | Some inv_mask \<Rightarrow>
                        (case current_gradient_lut (gradient_system s2) of
                           Some lut \<Rightarrow>
                             let abs_opacity = \<bar>gradient_opacity s2\<bar>;
                                 i_opacity = of_int abs_opacity / 100;
                                 o_opacity = of_int (100 - abs_opacity) / 100
                             in py_then
                                  (py_map (gradient_row lut i_opacity o_opacity)
                                          (zip (zip fr gray) inv_mask))
                                  (\<lambda>result. Inr (Some result, s2))
                         | None \<Rightarrow> Inr (Some (map invert_row (zip fr inv_mask)), s2))))"

definition mask_pixel :: "ki_alt \<Rightarrow> nat \<Rightarrow> nat \<Rightarrow> bool option" where
  \<comment> \<open>\<open>self.invert_mask[y, x]\<close>, when there is a mask and the pixel lies inside it.\<close>
  "mask_pixel s x y =
     (case invert_mask s of
        None \<Rightarrow> None
      | Some m \<Rightarrow> if y < length m \<and> x < length (m ! y) then Some (m ! y ! x) else None)"

section \<open>Invariants and sample inputs used below\<close>

definition min_dist5_exact :: "int \<Rightarrow> int \<Rightarrow> int \<Rightarrow> int" where
  \<comment> \<open>The five distances in unbounded arithmetic, for the proofs.\<close>
  "min_dist5_exact q X Y =
     (let cell_x = X div (2 * q); cell_y = Y div (2 * q);
          dist1 = manhattan X Y (cell_x * (2 * q), cell_y * (2 * q));
          dist2 = manhattan X Y ((cell_x + 1) * (2 * q), cell_y * (2 * q));
          dist3 = manhattan X Y (cell_x * (2 * q), (cell_y + 1) * (2 * q));
          dist4 = manhattan X Y ((cell_x + 1) * (2 * q), (cell_y + 1) * (2 * q));
          dist5 = manhattan X Y ((cell_x * 2 + 1) * q, (cell_y * 2 + 1) * q)
      in min (min (min dist1 dist2) (min dist3 dist4)) dist5)"

definition dist5_exact :: "int \<Rightarrow> int \<Rightarrow> int \<Rightarrow> int" where
  "dist5_exact q X Y =
     (let cell_x = X div (2 * q); cell_y = Y div (2 * q)
      in manhattan X Y ((cell_x * 2 + 1) * q, (cell_y * 2 + 1) * q))"

definition colors_in_range :: "color_stop list \<Rightarrow> bool" where
  "colors_in_range stops_list \<longleftrightarrow>
     (\<forall>s\<in>set stops_list. 3 \<le> length (color s) \<and> (\<forall>c\<in>set (color s). 0 \<le> c \<and> c \<le> 255))"

definition stops_in_range :: "color_stop list \<Rightarrow> bool" where
  "stops_in_range stops_list \<longleftrightarrow>
     (\<forall>s\<in>set stops_list. 0 \<le> position s \<and> position s \<le> 1 \<and> 3 \<le> length (color s) \<and>
        (\<forall>c\<in>set (color s). 0 \<le> c \<and> c \<le> 255))"

definition hard_edge_stops :: "color_stop list" where
  "hard_edge_stops =
     [\<lparr>position = 0, color = [255, 0, 0, 255]\<rparr>,
      \<lparr>position = 1 / 2, color = [0, 255, 0, 255]\<rparr>,
      \<lparr>position = 1 / 2, color = [0, 0, 255, 255]\<rparr>,
      \<lparr>position = 1, color = [255, 255, 255, 255]\<rparr>]"

definition red_stop :: "color_stop list" where
  "red_stop = [\<lparr>position = 0, color = [255, 0, 0, 255]\<rparr>]"

definition three_stops :: "color_stop list" where
  "three_stops =
     [\<lparr>position = 0, color = [255, 0, 0, 255]\<rparr>,
      \<lparr>position = 1 / 2, color = [0, 255, 0, 255]\<rparr>,
      \<lparr>position = 1, color = [0, 0, 255, 255]\<rparr>]"

definition rgb_ok :: "int list \<Rightarrow> bool" where
  "rgb_ok col \<longleftrightarrow> 3 \<le> length col \<and> (\<forall>j<3. 0 \<le> col ! j \<and> col ! j \<le> 255)"

definition lut_ok :: "uint8 list list \<Rightarrow> bool" where
  "lut_ok lut \<longleftrightarrow> lut \<noteq> [] \<and> (\<forall>row\<in>set lut. length row = 3)"

definition frame_ok :: "frame \<Rightarrow> uint8 list list \<Rightarrow> bool" where
  "frame_ok fr gray \<longleftrightarrow>
     (\<forall>row\<in>set fr. length row = snd (shape fr) \<and> (\<forall>px\<in>set row. length px = 3)) \<and>
     length gray = length fr \<and> (\<forall>row\<in>set gray. length row = snd (shape fr))"

definition flat_gradient_system :: gradient_overlay_simple where
  "flat_gradient_system =
     \<lparr>gradients = [\<lparr>name = ''flat'', stops = [\<lparr>position = 0, color = [30, 20, 10, 255]\<rparr>]\<rparr>],
      current_gradient_index = 0,
      current_gradient_lut = Some (replicate 256 [10, 20, 30])\<rparr>"

definition black_frame :: frame where
  "black_frame = [[[0, 0, 0]]]"

definition red_frame :: frame where
  "red_frame = [[[0, 0, 255], [0, 0, 255]]]"

definition centers_at_minimum :: "int \<Rightarrow> int \<Rightarrow> (int \<times> int) list \<Rightarrow> (int \<times> int) list" where
  \<comment> \<open>The centres of a list that are at the least Manhattan distance from the pixel; two or
      more of them is a tie.\<close>
  "centers_at_minimum x y cs = filter (\<lambda>c. manhattan x y c = Min (manhattan x y ` set cs)) cs"

definition least_distance :: "int \<Rightarrow> int \<Rightarrow> (int \<times> int) list \<Rightarrow> int \<Rightarrow> int" where
  \<comment> \<open>The value of \<open>min_distance\<close> after scanning \<open>cs\<close>, started at \<open>m\<close>.\<close>
  "least_distance x y cs m = fold (\<lambda>c a. min (manhattan x y c) a) cs m"

definition width_inv :: "ki_alt \<Rightarrow> bool" where
  "width_inv s \<longleftrightarrow> min_pixel_width s = 9 \<and> max_pixel_width s = 199 \<and>
     pixel_width s mod 10 = 9 \<and> 9 \<le> pixel_width s \<and> pixel_width s \<le> 199"

definition opacity_inv :: "ki_alt \<Rightarrow> bool" where
  "opacity_inv s \<longleftrightarrow> - 100 \<le> gradient_opacity s \<and> gradient_opacity s \<le> 100"

definition no_gradients :: gradient_overlay_simple where
  "no_gradients = \<lparr>gradients = [], current_gradient_index = 0, current_gradient_lut = None\<rparr>"

section \<open>Basic facts about failures\<close>

lemma py_then_Inr [simp]: "py_then (Inr v) f = f v"
  by (simp add: py_then_def)

lemma py_then_Inl [simp]: "py_then (Inl e) f = Inl e"
  by (simp add: py_then_def)

lemma py_then_eq_Inr:
  "py_then r f = Inr b \<longleftrightarrow> (\<exists>a. r = Inr a \<and> f a = Inr b)"
  by (cases r) simp_all

lemma py_floordiv_ok: "b \<noteq> 0 \<Longrightarrow> py_floordiv a b = Inr (a div b)"
  by (simp add: py_floordiv_def)

lemma py_map_const: "py_map (\<lambda>x. Inr c) xs = Inr (replicate (length xs) c)"
  by (induction xs) simp_all

lemma upto_m1_2: "[- 1..2] = [- 1, 0, 1, 2]"
  by (simp add: upto_rec1)

section \<open>The reference per-pixel decision never fails\<close>

lemma max_grid_pos: "0 < q \<Longrightarrow> max_grid q d = Inr (d div (2 * q) + 2)"
  by (simp add: max_grid_def py_floordiv_ok)

lemma max_grid_total: "\<exists>m. max_grid q d = Inr m"
  by (simp add: max_grid_def py_floordiv_def)

lemma center_type_flip_total: "\<exists>b. center_type_flip q c i = Inr b"
  by (simp add: center_type_flip_def py_floordiv_def)

lemma find_nearest_center_total:
  "0 < (p - 1) div 2 \<Longrightarrow> \<exists>c. find_nearest_center x y p w h = Inr c"
  by (simp add: find_nearest_center_def Let_def max_grid_pos)

text \<open>
  C8.  For a pitch with \<open>q = (p - 1) // 2 > 0\<close> the reference \<open>should_invert_pixel\<close>
  returns a boolean and raises nothing, at every pixel, time and frame size.  (Being a
  function of its six arguments, it returns equal results on equal inputs.)
\<close>

theorem should_invert_pixel_total:
  "0 < (p - 1) div 2 \<Longrightarrow> \<exists>b. should_invert_pixel x y t p w h = Inr b"
proof -
  assume q: "0 < (p - 1) div 2"
  then obtain c where c: "find_nearest_center x y p w h = Inr c"
    using find_nearest_center_total by blast
  show ?thesis
  proof (cases c)
    case None
    with c show ?thesis by (auto simp: should_invert_pixel_def)
  next
    case (Some a)
    with c center_type_flip_total show ?thesis
      by (simp add: should_invert_pixel_def Let_def)
  qed
qed

theorem should_invert_pixel_total_witness:
  "0 < ((9::int) - 1) div 2 \<and> (\<exists>b. should_invert_pixel 3 4 5 9 10 10 = Inr b)"
  using should_invert_pixel_total [of 9 3 4 5 10 10] by simp

section \<open>Degenerate pitch\<close>

lemma find_nearest_center_q0:
  "(p - 1) div 2 = 0 \<Longrightarrow> find_nearest_center x y p w h = Inr None"
  by (simp add: find_nearest_center_def Let_def max_grid_def possible_centers_def
      type1_centers_def type2_centers_def manhattan_def upto_m1_2)

lemma should_invert_pixel_q0:
  "(p - 1) div 2 = 0 \<Longrightarrow> should_invert_pixel x y t p w h = Inr False"
  by (simp add: should_invert_pixel_def find_nearest_center_q0)

lemma generate_mask_q0:
  "(p - 1) div 2 = 0 \<Longrightarrow> generate_mask width height t p = Inr (np_zeros height width)"
  by (simp add: generate_mask_def should_invert_pixel_q0 py_map_const np_zeros_def)

lemma mask_direct_degenerate:
  "(p - 1) div 2 \<le> 0 \<Longrightarrow>
     mask_direct_try fault (height, width) t p fc s
       = Inr (s\<lparr>invert_mask := Some (np_zeros height width)\<rparr>)"
  by (simp add: mask_direct_try_def Let_def)

text \<open>
  C4.  With \<open>q = (p - 1) // 2 \<le> 0\<close> the mask that \<open>_generate_ki_alternate_mask_direct\<close>
  installs is all false, whatever the frame size, the time and the frame counter; and for
  a positive pitch (1 or 2) the reference \<open>generate_mask\<close> returns the all-false mask too,
  without raising.
\<close>

theorem degenerate_pitch_all_false:
  "(p - 1) div 2 \<le> 0 \<Longrightarrow>
     invert_mask (generate_ki_alternate_mask_direct fault (height, width) t p fc s)
       = Some (np_zeros height width) \<and>
     (0 < p \<longrightarrow> generate_mask width height t p = Inr (np_zeros height width))"
proof
  assume q: "(p - 1) div 2 \<le> 0"
  show "invert_mask (generate_ki_alternate_mask_direct fault (height, width) t p fc s)
       = Some (np_zeros height width)"
    by (simp add: generate_ki_alternate_mask_direct_def mask_direct_degenerate [OF q])
  show "0 < p \<longrightarrow> generate_mask width height t p = Inr (np_zeros height width)"
  proof
    assume "0 < p"
    with q have "(p - 1) div 2 = 0" by presburger
    then show "generate_mask width height t p = Inr (np_zeros height width)"
      by (rule generate_mask_q0)
  qed
qed

theorem degenerate_pitch_all_false_witness:
  "((1::int) - 1) div 2 \<le> 0 \<and>
     invert_mask (generate_ki_alternate_mask_direct None (2, 3) 5 1 5 (ki_alt_init no_gradients))
       = Some [[False, False, False], [False, False, False]] \<and>
     (0 < (1::int)) \<and> generate_mask 3 2 5 1 = Inr [[False, False, False], [False, False, False]]"
  using degenerate_pitch_all_false [of 1 None 2 3 5 5 "ki_alt_init no_gradients"]
  by (simp add: np_zeros_def numeral_2_eq_2 numeral_3_eq_3)

section \<open>What the scan over the centres returns\<close>

lemma least_distance_Nil [simp]: "least_distance x y [] m = m"
  by (simp add: least_distance_def)

lemma least_distance_Cons [simp]:
  "least_distance x y (c # cs) m = least_distance x y cs (min (manhattan x y c) m)"
  by (simp add: least_distance_def)

lemma least_distance_le: "least_distance x y cs m \<le> m"
proof (induction cs arbitrary: m)
  case Nil
  show ?case by simp
next
  case (Cons c cs)
  have "least_distance x y cs (min (manhattan x y c) m) \<le> min (manhattan x y c) m"
    by (rule Cons.IH)
  then show ?case by simp
qed

lemma least_distance_le_elem: "c \<in> set cs \<Longrightarrow> least_distance x y cs m \<le> manhattan x y c"
proof (induction cs arbitrary: m)
  case Nil
  then show ?case by simp
next
  case (Cons a cs)
  show ?case
  proof (cases "c = a")
    case True
    have "least_distance x y cs (min (manhattan x y a) m) \<le> min (manhattan x y a) m"
      by (rule least_distance_le)
    with True show ?thesis by simp
  next
    case False
    with Cons.prems have "c \<in> set cs" by simp
    then show ?thesis using Cons.IH by simp
  qed
qed

lemma least_distance_attained:
  "least_distance x y cs m = m \<or> (\<exists>c\<in>set cs. least_distance x y cs m = manhattan x y c)"
proof (induction cs arbitrary: m)
  case Nil
  show ?case by simp
next
  case (Cons a cs)
  from Cons.IH [of "min (manhattan x y a) m"] show ?case
    by (auto simp: min_def split: if_splits)
qed

lemma least_distance_eqI:
  assumes "\<And>c. c \<in> set cs \<Longrightarrow> d \<le> manhattan x y c" "d \<le> m"
    and "d = m \<or> (\<exists>c\<in>set cs. manhattan x y c = d)"
  shows "least_distance x y cs m = d"
proof (rule antisym)
  from assms(3) show "least_distance x y cs m \<le> d"
    using least_distance_le [of x y cs m] least_distance_le_elem [of _ cs x y m] by auto
  from least_distance_attained [of x y cs m] assms(1,2) show "d \<le> least_distance x y cs m"
    by auto
qed

lemma nearest_loop_Some:
  "nearest_loop x y cs (Some m) ns =
     (if least_distance x y cs m < m then [] else ns)
       @ filter (\<lambda>c. manhattan x y c = least_distance x y cs m) cs"
proof (induction cs arbitrary: m ns)
  case Nil
  show ?case by simp
next
  case (Cons c cs)
  let ?d = "manhattan x y c"
  consider "?d < m" | "?d = m" | "m < ?d" by linarith
  then show ?case
  proof cases
    case 1
    then have mn: "min ?d m = ?d" by simp
    have le: "least_distance x y cs ?d \<le> ?d" by (rule least_distance_le)
    from 1 le have lt: "least_distance x y cs ?d < m" by linarith
    from 1 show ?thesis using le lt by (simp add: Cons.IH mn Let_def)
  next
    case 2
    then have mn: "min ?d m = m" by simp
    have le: "least_distance x y cs m \<le> m" by (rule least_distance_le)
    from 2 show ?thesis using le by (auto simp: Cons.IH mn Let_def)
  next
    case 3
    then have mn: "min ?d m = m" by simp
    have le: "least_distance x y cs m \<le> m" by (rule least_distance_le)
    from 3 show ?thesis using le by (auto simp: Cons.IH mn Let_def)
  qed
qed

lemma nearest_loop_None:
  "nearest_loop x y (c # cs) None [] =
     filter (\<lambda>c'. manhattan x y c' = least_distance x y cs (manhattan x y c)) (c # cs)"
  using least_distance_le [of x y cs "manhattan x y c"]
  by (auto simp: nearest_loop_Some Let_def)

section \<open>Lattice geometry: the five candidates suffice\<close>

lemma mult_q_mono: "0 < (q::int) \<Longrightarrow> a \<le> b \<Longrightarrow> a * q \<le> b * q"
  by (simp add: mult_right_mono)

lemma corner_nearest_1d:
  fixes x q a :: int
  assumes q: "0 < q"
  shows "min \<bar>x - (x div (2 * q)) * (2 * q)\<bar> \<bar>x - (x div (2 * q) + 1) * (2 * q)\<bar>
           \<le> \<bar>x - 2 * a * q\<bar>"
proof -
  define k where "k = x div (2 * q)"
  define r where "r = x mod (2 * q)"
  define K where "K = k * (2 * q)"
  define A where "A = 2 * a * q"
  have x: "x = K + r" unfolding K_def k_def r_def by (rule div_mult_mod_eq [symmetric])
  have r: "0 \<le> r" "r < 2 * q" using q by (simp_all add: r_def)
  have e1: "(k + 1) * (2 * q) = K + 2 * q" by (simp add: K_def algebra_simps)
  have A: "A = a * (2 * q)" by (simp add: A_def)
  have "min \<bar>x - K\<bar> \<bar>x - (K + 2 * q)\<bar> \<le> \<bar>x - A\<bar>"
  proof (cases "a \<le> k")
    case True
    then have "a * (2 * q) \<le> k * (2 * q)" using q by (intro mult_right_mono) simp_all
    then have "A \<le> K" by (simp only: A K_def)
    with x r show ?thesis by linarith
  next
    case False
    then have "k + 1 \<le> a" by simp
    then have "(k + 1) * (2 * q) \<le> a * (2 * q)" using q by (intro mult_right_mono) simp_all
    then have "K + 2 * q \<le> A" by (simp only: A e1)
    with x r show ?thesis by linarith
  qed
  then have "min \<bar>x - K\<bar> \<bar>x - (k + 1) * (2 * q)\<bar> \<le> \<bar>x - A\<bar>"
    by (simp only: e1)
  then show ?thesis unfolding K_def k_def A_def .
qed

lemma middle_nearest_1d:
  fixes x q a :: int
  assumes q: "0 < q"
  shows "\<bar>x - (x div (2 * q) * 2 + 1) * q\<bar> \<le> \<bar>x - (2 * a + 1) * q\<bar>"
proof -
  define k where "k = x div (2 * q)"
  define r where "r = x mod (2 * q)"
  define K where "K = k * (2 * q)"
  define A where "A = a * (2 * q)"
  have x: "x = K + r" unfolding K_def k_def r_def by (rule div_mult_mod_eq [symmetric])
  have r: "0 \<le> r" "r < 2 * q" using q by (simp_all add: r_def)
  have e1: "(k * 2 + 1) * q = K + q" by (simp add: K_def algebra_simps)
  have e2: "(2 * a + 1) * q = A + q" by (simp add: A_def algebra_simps)
  have e3: "(k + 1) * (2 * q) = K + 2 * q" by (simp add: K_def algebra_simps)
  have e4: "(a + 1) * (2 * q) = A + 2 * q" by (simp add: A_def algebra_simps)
  have "\<bar>x - (K + q)\<bar> \<le> \<bar>x - (A + q)\<bar>"
  proof -
    consider "a + 1 \<le> k" | "a = k" | "k + 1 \<le> a" by linarith
    then show ?thesis
    proof cases
      case 1
      then have "(a + 1) * (2 * q) \<le> k * (2 * q)" using q by (intro mult_right_mono) simp_all
      then have "A + 2 * q \<le> K" by (simp only: e4 K_def)
      with x r show ?thesis by linarith
    next
      case 2
      then have "A = K" by (simp add: A_def K_def)
      then show ?thesis by simp
    next
      case 3
      then have "(k + 1) * (2 * q) \<le> a * (2 * q)" using q by (intro mult_right_mono) simp_all
      then have "K + 2 * q \<le> A" by (simp only: e3 A_def)
      with x r show ?thesis by linarith
    qed
  qed
  then have "\<bar>x - (k * 2 + 1) * q\<bar> \<le> \<bar>x - (2 * a + 1) * q\<bar>"
    by (simp only: e1 e2)
  then show ?thesis unfolding k_def .
qed

lemma min_dist5_le_type1:
  assumes q: "0 < q"
  shows "min_dist5_exact q x y \<le> manhattan x y (2 * a * q, 2 * b * q)"
proof -
  have "min_dist5_exact q x y \<le>
      min \<bar>x - (x div (2 * q)) * (2 * q)\<bar> \<bar>x - (x div (2 * q) + 1) * (2 * q)\<bar>
    + min \<bar>y - (y div (2 * q)) * (2 * q)\<bar> \<bar>y - (y div (2 * q) + 1) * (2 * q)\<bar>"
    unfolding min_dist5_exact_def manhattan_def Let_def fst_conv snd_conv by (simp add: min_def)
  also have "\<dots> \<le> \<bar>x - 2 * a * q\<bar> + \<bar>y - 2 * b * q\<bar>"
    using corner_nearest_1d [OF q, of x a] corner_nearest_1d [OF q, of y b] by linarith
  finally show ?thesis by (simp add: manhattan_def)
qed

lemma dist5_le_type2:
  assumes q: "0 < q"
  shows "dist5_exact q x y \<le> manhattan x y ((2 * a + 1) * q, (2 * b + 1) * q)"
  using middle_nearest_1d [OF q, of x a] middle_nearest_1d [OF q, of y b]
  by (simp add: dist5_exact_def manhattan_def Let_def)

lemma min_dist5_le_dist5: "min_dist5_exact q x y \<le> dist5_exact q x y"
  by (simp add: min_dist5_exact_def dist5_exact_def Let_def)

lemma set_type1_centers:
  "set (type1_centers q mx my) = {(2 * gx * q, 2 * gy * q) | gx gy. - 1 \<le> gx \<and> gx \<le> mx \<and> - 1 \<le> gy \<and> gy \<le> my}"
  unfolding type1_centers_def set_concat set_map set_upto image_image
  by (auto simp only: atLeastAtMost_iff image_iff Bex_def UN_iff mem_Collect_eq) blast+

lemma set_type2_centers:
  "set (type2_centers q mx my) =
     {((2 * gx + 1) * q, (2 * gy + 1) * q) | gx gy. - 1 \<le> gx \<and> gx \<le> mx \<and> - 1 \<le> gy \<and> gy \<le> my}"
  unfolding type2_centers_def set_concat set_map set_upto image_image
  by (auto simp only: atLeastAtMost_iff image_iff Bex_def UN_iff mem_Collect_eq) blast+

lemma cell_index_range:
  fixes x w q :: int
  assumes "0 < q" "0 \<le> x" "x < w"
  shows "- 1 \<le> x div (2 * q)" "x div (2 * q) + 1 \<le> w div (2 * q) + 2"
proof -
  from assms have "0 \<le> x div (2 * q)" by (simp add: pos_imp_zdiv_nonneg_iff)
  then show "- 1 \<le> x div (2 * q)" by simp
  from assms have "x div (2 * q) \<le> w div (2 * q)" by (intro zdiv_mono1) simp_all
  then show "x div (2 * q) + 1 \<le> w div (2 * q) + 2" by simp
qed

lemma type1_in_centers:
  assumes "- 1 \<le> gx" "gx \<le> mx" "- 1 \<le> gy" "gy \<le> my"
  shows "(gx * (2 * q), gy * (2 * q)) \<in> set (possible_centers q mx my)"
proof -
  have "(gx * (2 * q), gy * (2 * q)) = (2 * gx * q, 2 * gy * q)" by simp
  with assms show ?thesis
    unfolding possible_centers_def set_append set_type1_centers by blast
qed

lemma type2_in_centers:
  assumes "- 1 \<le> gx" "gx \<le> mx" "- 1 \<le> gy" "gy \<le> my"
  shows "((gx * 2 + 1) * q, (gy * 2 + 1) * q) \<in> set (possible_centers q mx my)"
proof -
  have "((gx * 2 + 1) * q, (gy * 2 + 1) * q) = ((2 * gx + 1) * q, (2 * gy + 1) * q)"
    by (simp add: mult.commute)
  with assms show ?thesis
    unfolding possible_centers_def set_append set_type2_centers by blast
qed

lemma min_dist5_lower_bound:
  assumes "0 < q" "c \<in> set (possible_centers q mx my)"
  shows "min_dist5_exact q x y \<le> manhattan x y c"
proof -
  from assms(2) consider "c \<in> set (type1_centers q mx my)" | "c \<in> set (type2_centers q mx my)"
    by (auto simp: possible_centers_def)
  then show ?thesis
  proof cases
    case 1
    then obtain gx gy where "c = (2 * gx * q, 2 * gy * q)"
      unfolding set_type1_centers by blast
    then show ?thesis using min_dist5_le_type1 [OF assms(1)] by simp
  next
    case 2
    then obtain gx gy where "c = ((2 * gx + 1) * q, (2 * gy + 1) * q)"
      unfolding set_type2_centers by blast
    then show ?thesis
      using dist5_le_type2 [OF assms(1), of x y gx gy] min_dist5_le_dist5 [of q x y] by simp
  qed
qed

lemma type2_at_least_dist5:
  assumes "0 < q" "c \<in> set (type2_centers q mx my)"
  shows "dist5_exact q x y \<le> manhattan x y c"
proof -
  from assms(2) obtain gx gy where "c = ((2 * gx + 1) * q, (2 * gy + 1) * q)"
    unfolding set_type2_centers by blast
  then show ?thesis using dist5_le_type2 [OF assms(1), of x y gx gy] by simp
qed

lemma min_dist5_attained:
  assumes q: "0 < q" and x: "0 \<le> x" "x < w" and y: "0 \<le> y" "y < h"
  shows "\<exists>c\<in>set (possible_centers q (w div (2 * q) + 2) (h div (2 * q) + 2)).
           manhattan x y c = min_dist5_exact q x y"
proof -
  let ?cs = "possible_centers q (w div (2 * q) + 2) (h div (2 * q) + 2)"
  let ?cx = "x div (2 * q)" and ?cy = "y div (2 * q)"
  note rx = cell_index_range [OF q x] and ry = cell_index_range [OF q y]
  have c1: "(?cx * (2 * q), ?cy * (2 * q)) \<in> set ?cs"
    using rx ry by (intro type1_in_centers) simp_all
  have c2: "((?cx + 1) * (2 * q), ?cy * (2 * q)) \<in> set ?cs"
    using rx ry by (intro type1_in_centers) simp_all
  have c3: "(?cx * (2 * q), (?cy + 1) * (2 * q)) \<in> set ?cs"
    using rx ry by (intro type1_in_centers) simp_all
  have c4: "((?cx + 1) * (2 * q), (?cy + 1) * (2 * q)) \<in> set ?cs"
    using rx ry by (intro type1_in_centers) simp_all
  have c5: "((?cx * 2 + 1) * q, (?cy * 2 + 1) * q) \<in> set ?cs"
    using rx ry by (intro type2_in_centers) simp_all
  define d1 where "d1 = manhattan x y (?cx * (2 * q), ?cy * (2 * q))"
  define d2 where "d2 = manhattan x y ((?cx + 1) * (2 * q), ?cy * (2 * q))"
  define d3 where "d3 = manhattan x y (?cx * (2 * q), (?cy + 1) * (2 * q))"
  define d4 where "d4 = manhattan x y ((?cx + 1) * (2 * q), (?cy + 1) * (2 * q))"
  define d5 where "d5 = manhattan x y ((?cx * 2 + 1) * q, (?cy * 2 + 1) * q)"
  have m: "min_dist5_exact q x y = min (min (min d1 d2) (min d3 d4)) d5"
    by (simp add: min_dist5_exact_def Let_def d1_def d2_def d3_def d4_def d5_def)
  then consider "min_dist5_exact q x y = d1" | "min_dist5_exact q x y = d2" | "min_dist5_exact q x y = d3"
    | "min_dist5_exact q x y = d4" | "min_dist5_exact q x y = d5"
    by linarith
  then show ?thesis
  proof cases
    case 1 with c1 show ?thesis unfolding d1_def by metis
  next
    case 2 with c2 show ?thesis unfolding d2_def by metis
  next
    case 3 with c3 show ?thesis unfolding d3_def by metis
  next
    case 4 with c4 show ?thesis unfolding d4_def by metis
  next
    case 5 with c5 show ?thesis unfolding d5_def by metis
  qed
qed

lemma center5_in_centers:
  assumes q: "0 < q" and x: "0 \<le> x" "x < w" and y: "0 \<le> y" "y < h"
  shows "((x div (2 * q) * 2 + 1) * q, (y div (2 * q) * 2 + 1) * q)
           \<in> set (type2_centers q (w div (2 * q) + 2) (h div (2 * q) + 2))"
proof -
  note rx = cell_index_range [OF q x] and ry = cell_index_range [OF q y]
  have "((x div (2 * q) * 2 + 1) * q, (y div (2 * q) * 2 + 1) * q)
      = ((2 * (x div (2 * q)) + 1) * q, (2 * (y div (2 * q)) + 1) * q)"
    by (simp add: mult.commute)
  moreover have "x div (2 * q) \<le> w div (2 * q) + 2" "y div (2 * q) \<le> h div (2 * q) + 2"
    using rx ry by simp_all
  ultimately show ?thesis unfolding set_type2_centers using rx(1) ry(1) by blast
qed

lemma nearest_centers_filter:
  assumes q: "0 < q" and x: "0 \<le> x" "x < w" and y: "0 \<le> y" "y < h"
  shows "nearest_loop x y (possible_centers q (w div (2 * q) + 2) (h div (2 * q) + 2)) None []
       = filter (\<lambda>c. manhattan x y c = min_dist5_exact q x y)
           (possible_centers q (w div (2 * q) + 2) (h div (2 * q) + 2))"
proof -
  let ?cs = "possible_centers q (w div (2 * q) + 2) (h div (2 * q) + 2)"
  let ?D = "min_dist5_exact q x y"
  from min_dist5_attained [OF assms] obtain c where c: "c \<in> set ?cs" "manhattan x y c = ?D"
    by blast
  then obtain c0 cs' where cs: "?cs = c0 # cs'" by (cases ?cs) auto
  have lb: "\<And>c'. c' \<in> set ?cs \<Longrightarrow> ?D \<le> manhattan x y c'"
    by (rule min_dist5_lower_bound [OF q])
  have "least_distance x y cs' (manhattan x y c0) = ?D"
  proof (rule least_distance_eqI)
    fix c' assume "c' \<in> set cs'"
    then show "?D \<le> manhattan x y c'" using lb cs by simp
  next
    show "?D \<le> manhattan x y c0" using lb cs by simp
  next
    from c cs show "?D = manhattan x y c0 \<or> (\<exists>c\<in>set cs'. manhattan x y c = ?D)" by auto
  qed
  then show ?thesis unfolding cs by (simp only: nearest_loop_None)
qed

lemma flip_type1: "0 < q \<Longrightarrow> center_type_flip q (2 * gx * q, 2 * gy * q) b = Inr b"
  by (simp add: center_type_flip_def py_floordiv_def)

lemma flip_type2:
  "0 < q \<Longrightarrow> center_type_flip q ((2 * gx + 1) * q, (2 * gy + 1) * q) b = Inr (\<not> b)"
  by (simp add: center_type_flip_def py_floordiv_def)

lemma find_nearest_center_unfold:
  assumes q: "0 < (p - 1) div 2" and x: "0 \<le> x" "x < w" and y: "0 \<le> y" "y < h"
  shows "find_nearest_center x y p w h =
     (let ns = filter (\<lambda>c. manhattan x y c = min_dist5_exact ((p - 1) div 2) x y)
                 (possible_centers ((p - 1) div 2) (w div (2 * ((p - 1) div 2)) + 2)
                    (h div (2 * ((p - 1) div 2)) + 2))
      in if length ns > 1 then Inr None
         else Inr (Some (case ns of [] \<Rightarrow> (0, 0) | c # _ \<Rightarrow> c)))"
  using q by (simp add: find_nearest_center_def Let_def max_grid_pos
      nearest_centers_filter [OF q x y])

lemma reference_decision_off_ties:
  assumes q: "0 < (p - 1) div 2" and x: "0 \<le> x" "x < w" and y: "0 \<le> y" "y < h"
    and nt: "find_nearest_center x y p w h \<noteq> Inr None"
  shows "should_invert_pixel x y t p w h =
           Inr (if dist5_exact ((p - 1) div 2) x y = min_dist5_exact ((p - 1) div 2) x y
                then \<not> min_dist5_exact ((p - 1) div 2) x y \<le> t div 2
                else min_dist5_exact ((p - 1) div 2) x y \<le> t div 2)"
proof -
  define q' where "q' = (p - 1) div 2"
  have q': "0 < q'" using q by (simp add: q'_def)
  define cs where "cs = possible_centers q' (w div (2 * q') + 2) (h div (2 * q') + 2)"
  define D where "D = min_dist5_exact q' x y"
  define ns where "ns = filter (\<lambda>c. manhattan x y c = D) cs"
  have fnc: "find_nearest_center x y p w h =
      (if length ns > 1 then Inr None else Inr (Some (case ns of [] \<Rightarrow> (0, 0) | c # _ \<Rightarrow> c)))"
    using find_nearest_center_unfold [OF q x y]
    by (simp add: Let_def ns_def D_def cs_def q'_def)
  from min_dist5_attained [OF q' x y] obtain c0 where c0: "c0 \<in> set cs" "manhattan x y c0 = D"
    unfolding cs_def D_def by blast
  then have "c0 \<in> set ns" by (simp add: ns_def)
  then have "ns \<noteq> []" by auto
  moreover from nt fnc have "length ns \<le> 1" by (auto split: if_splits)
  ultimately obtain c where ns: "ns = [c]" by (cases ns) auto
  then have c: "c \<in> set cs" "manhattan x y c = D"
    and uniq: "\<And>c'. c' \<in> set cs \<Longrightarrow> manhattan x y c' = D \<Longrightarrow> c' = c"
  proof -
    have "c \<in> set ns" using ns by simp
    then show "c \<in> set cs" "manhattan x y c = D" by (simp_all add: ns_def)
    fix c' assume "c' \<in> set cs" "manhattan x y c' = D"
    then have "c' \<in> set ns" by (simp add: ns_def)
    then show "c' = c" using ns by simp
  qed
  have fnc': "find_nearest_center x y p w h = Inr (Some c)" using fnc ns by simp
  have sip: "should_invert_pixel x y t p w h = center_type_flip q' c (D \<le> t div 2)"
    by (simp add: should_invert_pixel_def fnc' Let_def c(2) q'_def)
  let ?c5 = "((x div (2 * q') * 2 + 1) * q', (y div (2 * q') * 2 + 1) * q')"
  have c5: "?c5 \<in> set (type2_centers q' (w div (2 * q') + 2) (h div (2 * q') + 2))"
    by (rule center5_in_centers [OF q' x y])
  have d5: "manhattan x y ?c5 = dist5_exact q' x y" by (simp add: dist5_exact_def Let_def)
  show ?thesis
  proof (cases "dist5_exact q' x y = D")
    case True
    have "?c5 \<in> set cs" using c5 by (simp add: cs_def possible_centers_def)
    with True d5 have "?c5 = c" by (intro uniq) simp_all
    moreover have "?c5 = ((2 * (x div (2 * q')) + 1) * q', (2 * (y div (2 * q')) + 1) * q')"
      by (simp add: mult.commute)
    ultimately have "center_type_flip q' c (D \<le> t div 2) = Inr (\<not> D \<le> t div 2)"
      using flip_type2 [OF q'] by metis
    with True sip show ?thesis by (simp add: q'_def [symmetric] D_def [symmetric])
  next
    case False
    have "D \<le> dist5_exact q' x y" unfolding D_def by (rule min_dist5_le_dist5)
    with False have lt: "D < dist5_exact q' x y" by simp
    have "c \<notin> set (type2_centers q' (w div (2 * q') + 2) (h div (2 * q') + 2))"
    proof
      assume "c \<in> set (type2_centers q' (w div (2 * q') + 2) (h div (2 * q') + 2))"
      from type2_at_least_dist5 [OF q' this, of x y] c(2) lt show False by simp
    qed
    with c(1) have "c \<in> set (type1_centers q' (w div (2 * q') + 2) (h div (2 * q') + 2))"
      by (simp add: cs_def possible_centers_def)
    then obtain gx gy where "c = (2 * gx * q', 2 * gy * q')"
      unfolding set_type1_centers by blast
    then have "center_type_flip q' c (D \<le> t div 2) = Inr (D \<le> t div 2)"
      using flip_type1 [OF q'] by simp
    with False sip show ?thesis by (simp add: q'_def [symmetric] D_def [symmetric])
  qed
qed

lemma nth_meshgrid_row:
  "x < width \<Longrightarrow> map f [0..int width - 1] ! x = f (int x)"
  by (simp add: nth_upto)

subsection \<open>The closed form inside the \<open>int64\<close> range\<close>

lemma int64_id: "- (2 ^ 63) \<le> v \<Longrightarrow> v < 2 ^ 63 \<Longrightarrow> int64 v = v"
  by (simp add: int64_def)

lemma manhattan64_exact:
  assumes "\<bar>X - fst c\<bar> + \<bar>Y - snd c\<bar> < 2 ^ 63"
  shows "manhattan64 X Y c = manhattan X Y c"
proof -
  have a: "int64 (X - fst c) = X - fst c" using assms by (intro int64_id) linarith+
  have b: "int64 (Y - snd c) = Y - snd c" using assms by (intro int64_id) linarith+
  have a': "int64 \<bar>X - fst c\<bar> = \<bar>X - fst c\<bar>" using assms by (intro int64_id) linarith+
  have b': "int64 \<bar>Y - snd c\<bar> = \<bar>Y - snd c\<bar>" using assms by (intro int64_id) linarith+
  have s: "int64 (\<bar>X - fst c\<bar> + \<bar>Y - snd c\<bar>) = \<bar>X - fst c\<bar> + \<bar>Y - snd c\<bar>"
    using assms by (intro int64_id) linarith+
  show ?thesis by (simp only: manhattan64_def manhattan_def a b a' b' s)
qed

lemma manhattan64_pair:
  "\<bar>X - cx\<bar> + \<bar>Y - cy\<bar> < 2 ^ 63 \<Longrightarrow> manhattan64 X Y (cx, cy) = manhattan X Y (cx, cy)"
  by (rule manhattan64_exact) simp

lemma cell_coordinates:
  fixes X q :: int
  assumes q: "0 < q" and X: "0 \<le> X" and bound: "X + 2 * q < 2 ^ 63"
  shows "int64 (X div (2 * q) * (2 * q)) = X div (2 * q) * (2 * q)"
    and "int64 (int64 (X div (2 * q) + 1) * (2 * q)) = (X div (2 * q) + 1) * (2 * q)"
    and "int64 (int64 (int64 (X div (2 * q) * 2) + 1) * q) = (X div (2 * q) * 2 + 1) * q"
    and "\<bar>X - X div (2 * q) * (2 * q)\<bar> \<le> 2 * q"
    and "\<bar>X - (X div (2 * q) + 1) * (2 * q)\<bar> \<le> 2 * q"
    and "\<bar>X - (X div (2 * q) * 2 + 1) * q\<bar> \<le> 2 * q"
proof -
  define k where "k = X div (2 * q)"
  define r where "r = X mod (2 * q)"
  define K where "K = k * (2 * q)"
  have x: "X = K + r" unfolding K_def k_def r_def by (rule div_mult_mod_eq [symmetric])
  have r: "0 \<le> r" "r < 2 * q" using q by (simp_all add: r_def)
  have k0: "0 \<le> k" using q X by (simp add: k_def pos_imp_zdiv_nonneg_iff)
  have "k * 1 \<le> k * (2 * q)" using k0 q by (intro mult_left_mono) simp_all
  then have kK: "k \<le> K" by (simp add: K_def)
  have "k * 2 \<le> k * (2 * q)" using k0 q by (intro mult_left_mono) simp_all
  then have k2K: "k * 2 \<le> K" by (simp add: K_def)
  have K0: "0 \<le> K" using k0 q by (simp add: K_def)
  have e2: "(k + 1) * (2 * q) = K + 2 * q" by (simp add: K_def algebra_simps)
  have e5: "(k * 2 + 1) * q = K + q" by (simp add: K_def algebra_simps)
  have c1: "int64 K = K" using K0 x r bound by (intro int64_id) linarith+
  have k1: "int64 (k + 1) = k + 1" using k0 kK x r bound q by (intro int64_id) linarith+
  have c2: "int64 ((k + 1) * (2 * q)) = (k + 1) * (2 * q)"
    unfolding e2 using K0 x r bound q by (intro int64_id) linarith+
  have k2: "int64 (k * 2) = k * 2" using k0 k2K x r bound q by (intro int64_id) linarith+
  have k21: "int64 (k * 2 + 1) = k * 2 + 1" using k0 k2K x r bound q by (intro int64_id) linarith+
  have c5: "int64 ((k * 2 + 1) * q) = (k * 2 + 1) * q"
    unfolding e5 using K0 x r bound q by (intro int64_id) linarith+
  show "int64 (X div (2 * q) * (2 * q)) = X div (2 * q) * (2 * q)"
    using c1 by (simp only: K_def k_def)
  show "int64 (int64 (X div (2 * q) + 1) * (2 * q)) = (X div (2 * q) + 1) * (2 * q)"
    using c2 k1 by (simp only: k_def)
  show "int64 (int64 (int64 (X div (2 * q) * 2) + 1) * q) = (X div (2 * q) * 2 + 1) * q"
    using c5 k2 k21 by (simp only: k_def)
  have "\<bar>X - K\<bar> \<le> 2 * q" using x r by linarith
  then show "\<bar>X - X div (2 * q) * (2 * q)\<bar> \<le> 2 * q" by (simp only: K_def k_def)
  have "\<bar>X - (K + 2 * q)\<bar> \<le> 2 * q" using x r by linarith
  then have "\<bar>X - (k + 1) * (2 * q)\<bar> \<le> 2 * q" by (simp only: e2)
  then show "\<bar>X - (X div (2 * q) + 1) * (2 * q)\<bar> \<le> 2 * q" by (simp only: k_def)
  have "\<bar>X - (K + q)\<bar> \<le> 2 * q" using x r q by linarith
  then have "\<bar>X - (k * 2 + 1) * q\<bar> \<le> 2 * q" by (simp only: e5)
  then show "\<bar>X - (X div (2 * q) * 2 + 1) * q\<bar> \<le> 2 * q" by (simp only: k_def)
qed

lemma closed_form_in_range:
  assumes q: "0 < q" and X: "0 \<le> X" and Y: "0 \<le> Y" and bound: "4 * q + X + Y < 2 ^ 63"
  shows "min_dist5 q X Y = min_dist5_exact q X Y" and "dist5 q X Y = dist5_exact q X Y"
proof -
  have bx: "X + 2 * q < 2 ^ 63" and by': "Y + 2 * q < 2 ^ 63" and b4: "4 * q < 2 ^ 63"
    using q X Y bound by linarith+
  note cx = cell_coordinates [OF q X bx] and cy = cell_coordinates [OF q Y by']
  let ?kx = "X div (2 * q)" and ?ky = "Y div (2 * q)"
  have c1: "center1 q ?kx ?ky = (?kx * (2 * q), ?ky * (2 * q))"
    by (simp only: center1_def cx(1) cy(1))
  have c2: "center2 q ?kx ?ky = ((?kx + 1) * (2 * q), ?ky * (2 * q))"
    by (simp only: center2_def cx(2) cy(1))
  have c3: "center3 q ?kx ?ky = (?kx * (2 * q), (?ky + 1) * (2 * q))"
    by (simp only: center3_def cx(1) cy(2))
  have c4: "center4 q ?kx ?ky = ((?kx + 1) * (2 * q), (?ky + 1) * (2 * q))"
    by (simp only: center4_def cx(2) cy(2))
  have c5: "center5 q ?kx ?ky = ((?kx * 2 + 1) * q, (?ky * 2 + 1) * q)"
    by (simp only: center5_def cx(3) cy(3))
  have d1: "manhattan64 X Y (?kx * (2 * q), ?ky * (2 * q))
      = manhattan X Y (?kx * (2 * q), ?ky * (2 * q))"
    using cx(4) cy(4) b4 by (intro manhattan64_pair) linarith
  have d2: "manhattan64 X Y ((?kx + 1) * (2 * q), ?ky * (2 * q))
      = manhattan X Y ((?kx + 1) * (2 * q), ?ky * (2 * q))"
    using cx(5) cy(4) b4 by (intro manhattan64_pair) linarith
  have d3: "manhattan64 X Y (?kx * (2 * q), (?ky + 1) * (2 * q))
      = manhattan X Y (?kx * (2 * q), (?ky + 1) * (2 * q))"
    using cx(4) cy(5) b4 by (intro manhattan64_pair) linarith
  have d4: "manhattan64 X Y ((?kx + 1) * (2 * q), (?ky + 1) * (2 * q))
      = manhattan X Y ((?kx + 1) * (2 * q), (?ky + 1) * (2 * q))"
    using cx(5) cy(5) b4 by (intro manhattan64_pair) linarith
  have d5: "manhattan64 X Y ((?kx * 2 + 1) * q, (?ky * 2 + 1) * q)
      = manhattan X Y ((?kx * 2 + 1) * q, (?ky * 2 + 1) * q)"
    using cx(6) cy(6) b4 by (intro manhattan64_pair) linarith
  show "min_dist5 q X Y = min_dist5_exact q X Y"
    by (simp only: min_dist5_def min_dist5_exact_def Let_def c1 c2 c3 c4 c5 d1 d2 d3 d4 d5)
  show "dist5 q X Y = dist5_exact q X Y"
    by (simp only: dist5_def dist5_exact_def Let_def c5 d5)
qed

lemma mask_direct_try_ok:
  assumes "0 < (p - 1) div 2" "0 \<le> t" "2 * ((p - 1) div 2) < 2 ^ 63"
  shows "mask_direct_try None (height, width) t p fc s =
     Inr (s\<lparr>invert_mask := Some (map (\<lambda>y. map (\<lambda>x.
              (if (fc div p) mod 2 = 1
               then \<not> pattern_mask_at ((p - 1) div 2) t p (x, y)
               else pattern_mask_at ((p - 1) div 2) t p (x, y)))
              [0..int width - 1]) [0..int height - 1]),
           cached_frame_size := Some (height, width)\<rparr>)"
proof -
  from assms(1) have "0 < p" by presburger
  moreover from assms(3) have "\<not> 2 ^ 63 \<le> 2 * ((p - 1) div 2)" by simp
  ultimately show ?thesis using assms(1,2)
    by (simp add: mask_direct_try_def np_meshgrid_def Let_def comp_def del: mult_2)
qed

lemma mask_pixel_direct:
  assumes "0 < (p - 1) div 2" "0 \<le> t" "2 * ((p - 1) div 2) < 2 ^ 63" "x < width" "y < height"
  shows "mask_pixel (generate_ki_alternate_mask_direct None (height, width) t p fc s) x y =
     Some (if (fc div p) mod 2 = 1
           then \<not> pattern_mask_at ((p - 1) div 2) t p (int x, int y)
           else pattern_mask_at ((p - 1) div 2) t p (int x, int y))"
  using assms(4,5)
  by (simp add: generate_ki_alternate_mask_direct_def mask_direct_try_ok [OF assms(1-3)]
      mask_pixel_def nth_upto)

lemma min_dist5_is_Min:
  assumes q: "0 < q" and x: "0 \<le> x" "x < w" and y: "0 \<le> y" "y < h"
  shows "min_dist5_exact q x y =
     Min (manhattan x y ` set (possible_centers q (w div (2 * q) + 2) (h div (2 * q) + 2)))"
proof (rule Min_eqI [symmetric])
  let ?cs = "possible_centers q (w div (2 * q) + 2) (h div (2 * q) + 2)"
  show "finite (manhattan x y ` set ?cs)" by simp
  show "\<And>d. d \<in> manhattan x y ` set ?cs \<Longrightarrow> min_dist5_exact q x y \<le> d"
    using min_dist5_lower_bound [OF q] by blast
  from min_dist5_attained [OF q x y] show "min_dist5_exact q x y \<in> manhattan x y ` set ?cs"
    by (metis imageI)
qed

text \<open>
  C1 (as amended).  For a pitch with \<open>q > 0\<close>, a frame with \<open>4 q + width + height < 2^63\<close>
  (so that the \<open>int64\<close> arrays do not wrap), a pixel inside the frame, a non-negative time
  and an even cycle number: the least distance over the five candidates is a lower bound for
  the distance to every lattice centre of the plane and equals the least distance over the
  centres the exhaustive search enumerates; and unless that search reports a tie, the mask
  entry of the closed form equals the reference decision at \<open>t mod p\<close>.  At a tie the
  reference decision is false, and the closed form decides as for a Type-2 centre when the
  cell's Type-2 centre is among the nearest.
\<close>

theorem closed_form_agrees_off_ties:
  assumes "0 < (p - 1) div 2" "0 \<le> t" "x < width" "y < height" "(fc div p) mod 2 \<noteq> 1"
    and "4 * ((p - 1) div 2) + int width + int height < 2 ^ 63"
  shows "(\<forall>a b. min_dist5 ((p - 1) div 2) (int x) (int y)
                   \<le> manhattan (int x) (int y) (2 * a * ((p - 1) div 2), 2 * b * ((p - 1) div 2)) \<and>
                 min_dist5 ((p - 1) div 2) (int x) (int y)
                   \<le> manhattan (int x) (int y)
                        ((2 * a + 1) * ((p - 1) div 2), (2 * b + 1) * ((p - 1) div 2))) \<and>
         min_dist5 ((p - 1) div 2) (int x) (int y) =
           Min (manhattan (int x) (int y) `
                  set (possible_centers ((p - 1) div 2)
                         (int width div (2 * ((p - 1) div 2)) + 2)
                         (int height div (2 * ((p - 1) div 2)) + 2))) \<and>
         (find_nearest_center (int x) (int y) p (int width) (int height) \<noteq> Inr None \<longrightarrow>
            (\<exists>b. should_invert_pixel (int x) (int y) (t mod p) p (int width) (int height) = Inr b \<and>
                 mask_pixel (generate_ki_alternate_mask_direct None (height, width) t p fc s) x y
                   = Some b)) \<and>
         (find_nearest_center (int x) (int y) p (int width) (int height) = Inr None \<longrightarrow>
            should_invert_pixel (int x) (int y) (t mod p) p (int width) (int height) = Inr False \<and>
            mask_pixel (generate_ki_alternate_mask_direct None (height, width) t p fc s) x y
              = Some (if dist5 ((p - 1) div 2) (int x) (int y) = min_dist5 ((p - 1) div 2) (int x) (int y)
                      then \<not> min_dist5 ((p - 1) div 2) (int x) (int y) \<le> (t mod p) div 2
                      else min_dist5 ((p - 1) div 2) (int x) (int y) \<le> (t mod p) div 2))"
proof -
  let ?q = "(p - 1) div 2"
  note q = assms(1)
  have x: "0 \<le> int x" "int x < int width" and y: "0 \<le> int y" "int y < int height"
    using assms(3,4) by simp_all
  have bound: "4 * ?q + int x + int y < 2 ^ 63" using assms(6) x y by linarith
  have q63: "2 * ?q < 2 ^ 63" using assms(6) q by linarith
  note ex = closed_form_in_range [OF q x(1) y(1) bound]
  have mask: "mask_pixel (generate_ki_alternate_mask_direct None (height, width) t p fc s) x y
      = Some (pattern_mask_at ?q t p (int x, int y))"
    using assms(5) by (simp add: mask_pixel_direct [OF assms(1,2) q63 assms(3,4)])
  have pat: "pattern_mask_at ?q t p (int x, int y)
      = (if dist5 ?q (int x) (int y) = min_dist5 ?q (int x) (int y)
         then \<not> min_dist5 ?q (int x) (int y) \<le> (t mod p) div 2
         else min_dist5 ?q (int x) (int y) \<le> (t mod p) div 2)"
    by (simp add: pattern_mask_at_def Let_def)
  have plane: "\<forall>a b. min_dist5 ?q (int x) (int y)
                   \<le> manhattan (int x) (int y) (2 * a * ?q, 2 * b * ?q) \<and>
                 min_dist5 ?q (int x) (int y)
                   \<le> manhattan (int x) (int y) ((2 * a + 1) * ?q, (2 * b + 1) * ?q)"
  proof (intro allI conjI)
    fix a b
    show "min_dist5 ?q (int x) (int y) \<le> manhattan (int x) (int y) (2 * a * ?q, 2 * b * ?q)"
      unfolding ex by (rule min_dist5_le_type1 [OF q])
    show "min_dist5 ?q (int x) (int y)
            \<le> manhattan (int x) (int y) ((2 * a + 1) * ?q, (2 * b + 1) * ?q)"
      unfolding ex
      using dist5_le_type2 [OF q, of "int x" "int y" a b] min_dist5_le_dist5 [of ?q "int x" "int y"]
      by linarith
  qed
  have least: "min_dist5 ?q (int x) (int y) =
           Min (manhattan (int x) (int y) `
                  set (possible_centers ?q (int width div (2 * ?q) + 2)
                         (int height div (2 * ?q) + 2)))"
    unfolding ex by (rule min_dist5_is_Min [OF q x y])
  have off: "\<exists>b. should_invert_pixel (int x) (int y) (t mod p) p (int width) (int height) = Inr b \<and>
      mask_pixel (generate_ki_alternate_mask_direct None (height, width) t p fc s) x y = Some b"
    if nt: "find_nearest_center (int x) (int y) p (int width) (int height) \<noteq> Inr None"
  proof -
    have "should_invert_pixel (int x) (int y) (t mod p) p (int width) (int height)
        = Inr (pattern_mask_at ?q t p (int x, int y))"
      unfolding pat ex by (rule reference_decision_off_ties [OF q x y nt])
    with mask show ?thesis by blast
  qed
  have tie: "should_invert_pixel (int x) (int y) (t mod p) p (int width) (int height) = Inr False"
    if "find_nearest_center (int x) (int y) p (int width) (int height) = Inr None"
    using that by (simp add: should_invert_pixel_def)
  from plane least off tie mask pat show ?thesis by (intro conjI impI) simp_all
qed

theorem closed_form_agrees_off_ties_witness:
  "0 < ((9::int) - 1) div 2 \<and> (0::int) \<le> 3 \<and> (3::nat) < 10 \<and> (4::nat) < 10 \<and>
   ((3::int) div 9) mod 2 \<noteq> 1 \<and>
   4 * (((9::int) - 1) div 2) + int 10 + int 10 < 2 ^ 63 \<and>
   find_nearest_center (int 3) (int 4) 9 (int 10) (int 10) \<noteq> Inr None \<and>
   (\<exists>b. should_invert_pixel (int 3) (int 4) (3 mod 9) 9 (int 10) (int 10) = Inr b \<and>
        mask_pixel (generate_ki_alternate_mask_direct None (10, 10) 3 9 3 (ki_alt_init no_gradients))
          3 4 = Some b)"
proof -
  have h: "0 < ((9::int) - 1) div 2" "(0::int) \<le> 3" "(3::nat) < 10" "(4::nat) < 10"
    "((3::int) div 9) mod 2 \<noteq> 1" "4 * (((9::int) - 1) div 2) + int 10 + int 10 < 2 ^ 63"
    by simp_all
  have nt: "find_nearest_center (int 3) (int 4) 9 (int 10) (int 10) \<noteq> Inr None"
    by code_simp
  from closed_form_agrees_off_ties [OF h, of "ki_alt_init no_gradients"] nt h
  show ?thesis by blast
qed


text \<open>
  C1 as stated fails at a tie: pixel (0, 4) at pitch 9 is at distance 4 from (0, 0) and from
  (4, 4); the reference decision is false, the closed form counts the pixel as nearest to
  the Type-2 centre and inverts it at \<open>t = 0\<close>.
\<close>

theorem closed_form_differs_at_tie:
  "mask_pixel (generate_ki_alternate_mask_direct None (10, 10) 0 9 0 (ki_alt_init no_gradients))
     0 4 = Some True \<and>
   should_invert_pixel 0 4 (0 mod 9) 9 10 10 = Inr False"
  by code_simp


section \<open>Periodicity in the animation clock\<close>

text \<open>
  C2 as stated fails for the reference \<open>should_invert_pixel\<close>, whose threshold is
  \<open>time // 2\<close> with no reduction modulo the pitch: pixel (1, 0) at pitch 9 is not inverted at
  \<open>t = 0\<close> and is inverted at \<open>t = 9\<close>.
\<close>

theorem static_evaluate_not_periodic:
  "should_invert_pixel 1 0 0 9 10 10 = Inr False \<and>
   should_invert_pixel 1 0 (0 + 9) 9 10 10 = Inr True"
  by code_simp


lemma pattern_mask_at_period: "pattern_mask_at q (t + p) p = pattern_mask_at q t p"
  by (simp add: pattern_mask_at_def fun_eq_iff)

lemma mask_direct_try_shift_time:
  assumes "0 < (p - 1) div 2" "0 \<le> t"
  shows "mask_direct_try fault sh (t + p) p fc s = mask_direct_try fault sh t p fc s"
proof -
  from assms(1) have "0 < p" by presburger
  with assms(2) have "\<not> (p \<le> 0 \<or> t + p < 0)" "\<not> (p \<le> 0 \<or> t < 0)" by simp_all
  then show ?thesis
    by (simp add: mask_direct_try_def pattern_mask_at_period Let_def cong: if_cong)
qed

lemma mask_direct_try_shift_counter:
  assumes "0 < (p - 1) div 2"
  shows "mask_direct_try fault sh t p (fc + 2 * p) s = mask_direct_try fault sh t p fc s"
proof -
  from assms(1) have "p \<noteq> 0" by presburger
  then have "(fc + 2 * p) div p = fc div p + 2" by simp
  then have "(fc + 2 * p) div p mod 2 = fc div p mod 2" by simp
  then show ?thesis by (simp add: mask_direct_try_def Let_def cong: if_cong)
qed


text \<open>
  C2 (as amended).  For \<open>q > 0\<close> and \<open>t \<ge> 0\<close> the mask installed by
  \<open>_generate_ki_alternate_mask_direct\<close> is unchanged when the time parameter advances by
  \<open>p\<close> at a fixed frame counter (period \<open>p\<close> before the cycle flip) and when time and frame
  counter both advance by \<open>2 p\<close> (period \<open>2 p\<close> with the flip); the reference decision agrees
  at \<open>t\<close> and \<open>t + p\<close> once the caller reduces the time modulo \<open>p\<close>.
\<close>

theorem animated_mask_periodic:
  assumes "0 < (p - 1) div 2" "0 \<le> t"
  shows "generate_ki_alternate_mask_direct fault sh (t + p) p fc s
           = generate_ki_alternate_mask_direct fault sh t p fc s \<and>
         generate_ki_alternate_mask_direct fault sh (t + 2 * p) p (fc + 2 * p) s
           = generate_ki_alternate_mask_direct fault sh t p fc s \<and>
         should_invert_pixel x y ((t + p) mod p) p w h = should_invert_pixel x y (t mod p) p w h"
proof (intro conjI)
  from assms(1) have p: "0 < p" by presburger
  show "generate_ki_alternate_mask_direct fault sh (t + p) p fc s
           = generate_ki_alternate_mask_direct fault sh t p fc s"
    by (simp add: generate_ki_alternate_mask_direct_def mask_direct_try_shift_time [OF assms])
  have "0 \<le> t + p" using assms(2) p by simp
  then have "mask_direct_try fault sh (t + p + p) p (fc + 2 * p) s
      = mask_direct_try fault sh t p fc s"
    by (simp only: mask_direct_try_shift_time [OF assms(1)] assms(2)
        mask_direct_try_shift_counter [OF assms(1)])
  moreover have "t + 2 * p = t + p + p" by simp
  ultimately show "generate_ki_alternate_mask_direct fault sh (t + 2 * p) p (fc + 2 * p) s
           = generate_ki_alternate_mask_direct fault sh t p fc s"
    by (simp only: generate_ki_alternate_mask_direct_def)
  show "should_invert_pixel x y ((t + p) mod p) p w h = should_invert_pixel x y (t mod p) p w h"
    by simp
qed

theorem animated_mask_periodic_witness:
  "0 < ((9::int) - 1) div 2 \<and> (0::int) \<le> 3 \<and>
   generate_ki_alternate_mask_direct None (2, 2) (3 + 9) 9 3 (ki_alt_init no_gradients)
     = generate_ki_alternate_mask_direct None (2, 2) 3 9 3 (ki_alt_init no_gradients) \<and>
   generate_ki_alternate_mask_direct None (2, 2) (3 + 2 * 9) 9 (3 + 2 * 9) (ki_alt_init no_gradients)
     = generate_ki_alternate_mask_direct None (2, 2) 3 9 3 (ki_alt_init no_gradients) \<and>
   should_invert_pixel 1 0 ((3 + 9) mod 9) 9 10 10 = should_invert_pixel 1 0 (3 mod 9) 9 10 10"
proof -
  have h: "0 < ((9::int) - 1) div 2" "(0::int) \<le> 3" by simp_all
  from animated_mask_periodic [OF h, of None "(2, 2)" 3 "ki_alt_init no_gradients" 1 0 10 10] h
  show ?thesis by blast
qed


section \<open>Ties in the exhaustive search\<close>

lemma reference_tie_false:
  "find_nearest_center x y p w h = Inr None \<Longrightarrow> should_invert_pixel x y t p w h = Inr False"
  by (simp add: should_invert_pixel_def)

lemma reference_tie_iff:
  assumes q: "0 < (p - 1) div 2" and x: "0 \<le> x" "x < w" and y: "0 \<le> y" "y < h"
  shows "find_nearest_center x y p w h = Inr None \<longleftrightarrow>
     1 < length (filter (\<lambda>c. manhattan x y c = min_dist5_exact ((p - 1) div 2) x y)
                 (possible_centers ((p - 1) div 2) (w div (2 * ((p - 1) div 2)) + 2)
                    (h div (2 * ((p - 1) div 2)) + 2)))"
  by (simp add: find_nearest_center_unfold [OF q x y] Let_def)

lemma nearest_loop_at_minimum:
  "nearest_loop x y cs None [] = centers_at_minimum x y cs"
proof (cases cs)
  case Nil
  then show ?thesis by (simp add: centers_at_minimum_def)
next
  case (Cons c0 cs')
  have "Min (manhattan x y ` set (c0 # cs')) = least_distance x y cs' (manhattan x y c0)"
  proof (rule Min_eqI)
    show "finite (manhattan x y ` set (c0 # cs'))" by simp
    fix d assume "d \<in> manhattan x y ` set (c0 # cs')"
    then show "least_distance x y cs' (manhattan x y c0) \<le> d"
      using least_distance_le [of x y cs' "manhattan x y c0"]
        least_distance_le_elem [of _ cs' x y "manhattan x y c0"]
      by auto
  next
    show "least_distance x y cs' (manhattan x y c0) \<in> manhattan x y ` set (c0 # cs')"
      using least_distance_attained [of x y cs' "manhattan x y c0"] by auto
  qed
  then show ?thesis unfolding Cons by (simp only: nearest_loop_None centers_at_minimum_def)
qed

text \<open>
  C3.  Whenever two or more of the centres that the exhaustive search enumerates are at the
  least Manhattan distance from the pixel, \<open>find_nearest_center\<close> reports the tie and
  \<open>should_invert_pixel\<close> returns false: for every pixel, every time, every pitch and every
  frame size.
\<close>

theorem reference_tie_not_inverted:
  assumes "max_grid ((p - 1) div 2) w = Inr mx" "max_grid ((p - 1) div 2) h = Inr my"
    and "1 < length (centers_at_minimum x y (possible_centers ((p - 1) div 2) mx my))"
  shows "find_nearest_center x y p w h = Inr None \<and> should_invert_pixel x y t p w h = Inr False"
proof -
  have "find_nearest_center x y p w h = Inr None"
    using assms by (simp add: find_nearest_center_def Let_def nearest_loop_at_minimum)
  then show ?thesis by (simp add: reference_tie_false)
qed

theorem reference_tie_not_inverted_witness:
  "max_grid (((9::int) - 1) div 2) 10 = Inr 3 \<and>
   1 < length (centers_at_minimum 2 2 (possible_centers (((9::int) - 1) div 2) 3 3)) \<and>
   find_nearest_center 2 2 9 10 10 = Inr None \<and> should_invert_pixel 2 2 8 9 10 10 = Inr False"
proof -
  have h: "max_grid (((9::int) - 1) div 2) 10 = Inr 3"
    "1 < length (centers_at_minimum 2 2 (possible_centers (((9::int) - 1) div 2) 3 3))"
    by code_simp+
  from reference_tie_not_inverted [OF h(1) h(1) h(2), of 8] h show ?thesis by blast
qed

text \<open>
  The copy of the search that \<open>ki_alt.py\<close> keeps as \<open>_find_nearest_center\<close> is called by
  \<open>_should_invert_pixel\<close> only, which itself has no caller.  There a tie yields the default
  centre (0, 0), so at the same pixel and time the copy decides true.
\<close>

lemma KiAlt_copy_decides_against_origin:
  "KiAlt_find_nearest_center 2 2 9 10 10 = Inr (0, 0) \<and>
   KiAlt_should_invert_pixel 2 2 8 9 10 10 = True"
  by code_simp

section \<open>Gradient interpolation at the stops\<close>

lemma take3: "3 \<le> length xs \<Longrightarrow> take 3 xs = [xs ! 0, xs ! 1, xs ! 2]"
proof -
  assume "3 \<le> length xs"
  then obtain a b c rest where "xs = a # b # c # rest"
    by (metis Suc_le_length_iff numeral_3_eq_3)
  then show ?thesis by (simp add: numeral_3_eq_3)
qed

lemma py_getitem_ok: "0 \<le> j \<Longrightarrow> nat j < length xs \<Longrightarrow> py_getitem xs j = Inr (xs ! nat j)"
  by (auto simp: py_getitem_def Let_def)

lemma clip_int_id: "0 \<le> c \<Longrightarrow> c \<le> 255 \<Longrightarrow> py_int (np_clip (of_int c) 0 255) = c"
  by (simp add: py_int_def np_clip_def)

lemma clip_range: "0 \<le> py_int (np_clip v 0 255) \<and> py_int (np_clip v 0 255) \<le> 255"
proof -
  have "0 \<le> np_clip v 0 255" "np_clip v 0 255 \<le> 255" by (simp_all add: np_clip_def)
  then show ?thesis by (simp add: py_int_def floor_le_iff le_floor_iff)
qed

lemma channel_in_range:
  assumes "3 \<le> length (color s)" "\<forall>c\<in>set (color s). 0 \<le> c \<and> c \<le> 255" "j < 3"
  shows "0 \<le> color s ! j \<and> color s ! j \<le> 255"
  using assms by (simp add: nth_mem)

lemma interpolate_channel_at_0:
  assumes "3 \<le> length (color s1)" "3 \<le> length (color s2)"
    "\<forall>c\<in>set (color s1). 0 \<le> c \<and> c \<le> 255" "0 \<le> j" "j < 3"
  shows "interpolate_channel s1 s2 0 j = Inr (color s1 ! nat j)"
proof -
  have "nat j < 3" using assms(4,5) by simp
  with assms show ?thesis
    by (simp add: interpolate_channel_def py_getitem_ok clip_int_id channel_in_range)
qed

lemma interpolate_channel_at_1:
  assumes "3 \<le> length (color s1)" "3 \<le> length (color s2)"
    "\<forall>c\<in>set (color s2). 0 \<le> c \<and> c \<le> 255" "0 \<le> j" "j < 3"
  shows "interpolate_channel s1 s2 1 j = Inr (color s2 ! nat j)"
proof -
  have "nat j < 3" using assms(4,5) by simp
  with assms show ?thesis
    by (simp add: interpolate_channel_def py_getitem_ok clip_int_id channel_in_range)
qed

lemma py_map_3:
  "f 0 = Inr a \<Longrightarrow> f 1 = Inr b \<Longrightarrow> f 2 = Inr c \<Longrightarrow> py_map f [0, 1, 2] = Inr [a, b, c]"
  by simp

lemma interpolate_first:
  assumes "position s1 < position s2" "stops_in_range (s1 # s2 # rest)"
  shows "interpolate_pairs (s1 # s2 # rest) (position s1) = Inr (take 3 (color s1))"
proof -
  from assms(2) have r: "3 \<le> length (color s1)" "3 \<le> length (color s2)"
    "\<forall>c\<in>set (color s1). 0 \<le> c \<and> c \<le> 255"
    by (simp_all add: stops_in_range_def)
  have "py_map (interpolate_channel s1 s2 0) [0, 1, 2]
      = Inr [color s1 ! 0, color s1 ! 1, color s1 ! 2]"
    using interpolate_channel_at_0 [OF r, of 0] interpolate_channel_at_0 [OF r, of 1]
      interpolate_channel_at_0 [OF r, of 2]
    by (intro py_map_3) simp_all
  with assms(1) r(1) show ?thesis by (simp add: take3)
qed

lemma interpolate_second:
  assumes "position s1 < position s2" "stops_in_range (s1 # s2 # rest)"
  shows "interpolate_pairs (s1 # s2 # rest) (position s2) = Inr (take 3 (color s2))"
proof -
  from assms(2) have r: "3 \<le> length (color s1)" "3 \<le> length (color s2)"
    "\<forall>c\<in>set (color s2). 0 \<le> c \<and> c \<le> 255"
    by (simp_all add: stops_in_range_def)
  have "py_map (interpolate_channel s1 s2 1) [0, 1, 2]
      = Inr [color s2 ! 0, color s2 ! 1, color s2 ! 2]"
    using interpolate_channel_at_1 [OF r, of 0] interpolate_channel_at_1 [OF r, of 1]
      interpolate_channel_at_1 [OF r, of 2]
    by (intro py_map_3) simp_all
  with assms(1) r(2) show ?thesis by (simp add: take3)
qed

lemma interpolate_pairs_at_stop:
  assumes "sorted_wrt (<) (map position xs)" "stops_in_range xs" "i < length xs"
  shows "interpolate_pairs xs (position (xs ! i)) = Inr (take 3 (color (xs ! i)))"
  using assms
proof (induction xs arbitrary: i)
  case Nil
  then show ?case by simp
next
  case (Cons s1 xs)
  show ?case
  proof (cases xs)
    case Nil
    with Cons.prems show ?thesis by simp
  next
    case (Cons s2 rest)
    from Cons.prems(1) Cons have lt: "position s1 < position s2" by simp
    from Cons.prems(2) Cons have rng: "stops_in_range (s1 # s2 # rest)" by simp
    show ?thesis
    proof (cases i)
      case 0
      with Cons interpolate_first [OF lt rng] show ?thesis by simp
    next
      case (Suc n)
      show ?thesis
      proof (cases n)
        case 0
        with Suc Cons interpolate_second [OF lt rng] show ?thesis by simp
      next
        case (Suc k)
        from Cons.prems(3) \<open>i = Suc n\<close> have n: "n < length xs" by simp
        from Cons.prems(1) have sorted: "sorted_wrt (<) (map position xs)" by simp
        from Cons.prems(2) have rng': "stops_in_range xs" by (simp add: stops_in_range_def)
        have "position s2 < position (xs ! n)"
        proof -
          from n Suc Cons have k: "k < length rest" by simp
          from sorted Cons have "\<forall>s\<in>set rest. position s2 < position s" by simp
          with k have "position s2 < position (rest ! k)" by simp
          with Suc Cons show ?thesis by simp
        qed
        then have "\<not> position (xs ! n) \<le> position s2" by simp
        then have "interpolate_pairs (s1 # xs) (position (xs ! n))
            = interpolate_pairs xs (position (xs ! n))"
          using Cons by simp
        also have "\<dots> = Inr (take 3 (color (xs ! n)))"
          by (rule Cons.IH [OF sorted rng' n])
        finally show ?thesis using \<open>i = Suc n\<close> by simp
      qed
    qed
  qed
qed

text \<open>
  C5 (as amended).  For a stop list whose positions lie in [0, 1] and are strictly
  increasing, with at least three channels per colour and every channel in 0..255,
  interpolating at the position of stop \<open>i\<close> returns exactly the RGB colour of stop \<open>i\<close>.
\<close>

theorem interpolate_round_trip:
  assumes "sorted_wrt (<) (map position stops_list)" "stops_in_range stops_list"
    "i < length stops_list"
  shows "interpolate_gradient_color stops_list (position (stops_list ! i))
           = Inr (take 3 (color (stops_list ! i)))"
proof -
  from assms(2,3) have "0 \<le> position (stops_list ! i)" "position (stops_list ! i) \<le> 1"
    by (simp_all add: stops_in_range_def)
  then have "max 0 (min 1 (position (stops_list ! i))) = position (stops_list ! i)" by simp
  then show ?thesis
    by (simp add: interpolate_gradient_color_def interpolate_pairs_at_stop [OF assms])
qed

theorem interpolate_round_trip_witness:
  "sorted_wrt (<) (map position three_stops) \<and> stops_in_range three_stops \<and>
   1 < length three_stops \<and>
   interpolate_gradient_color three_stops (position (three_stops ! 1))
     = Inr (take 3 (color (three_stops ! 1)))"
proof -
  have h: "sorted_wrt (<) (map position three_stops)" "stops_in_range three_stops"
    "1 < length three_stops"
    by (simp_all add: three_stops_def stops_in_range_def)
  from interpolate_round_trip [OF h] h show ?thesis by blast
qed

text \<open>
  C5 as stated (positions merely non-decreasing) fails where two stops share a position:
  the first pair that reaches the position wins, so the stop before a hard edge is returned
  for the stop after it.
\<close>

theorem interpolate_duplicate_position:
  "sorted_wrt (\<le>) (map position hard_edge_stops) \<and> stops_in_range hard_edge_stops \<and>
   interpolate_gradient_color hard_edge_stops (position (hard_edge_stops ! 2)) = Inr [0, 255, 0] \<and>
   take 3 (color (hard_edge_stops ! 2)) = [0, 0, 255]"
proof -
  have "sorted_wrt (\<le>) (map position hard_edge_stops)" "stops_in_range hard_edge_stops"
    by (simp_all add: hard_edge_stops_def stops_in_range_def)
  moreover have
    "interpolate_gradient_color hard_edge_stops (position (hard_edge_stops ! 2)) = Inr [0, 255, 0]"
    "take 3 (color (hard_edge_stops ! 2)) = [0, 0, 255]"
    by code_simp+
  ultimately show ?thesis by blast
qed

section \<open>The lookup table against the interpolation\<close>

lemma py_map_length: "py_map f xs = Inr ys \<Longrightarrow> length ys = length xs"
  by (induction xs arbitrary: ys) (auto simp: py_then_eq_Inr)

lemma py_map_nth: "py_map f xs = Inr ys \<Longrightarrow> i < length xs \<Longrightarrow> f (xs ! i) = Inr (ys ! i)"
proof (induction xs arbitrary: ys i)
  case Nil
  then show ?case by simp
next
  case (Cons x xs)
  from Cons.prems(1) obtain b bs where b: "f x = Inr b" "py_map f xs = Inr bs" "ys = b # bs"
    by (auto simp: py_then_eq_Inr)
  show ?case
  proof (cases i)
    case 0
    with b show ?thesis by simp
  next
    case (Suc n)
    with Cons.prems(2) have "n < length xs" by simp
    from Cons.IH [OF b(2) this] Suc b(3) show ?thesis by simp
  qed
qed

lemma py_map_ok: "(\<And>x. x \<in> set xs \<Longrightarrow> \<exists>y. f x = Inr y) \<Longrightarrow> \<exists>ys. py_map f xs = Inr ys"
proof (induction xs)
  case Nil
  show ?case by simp
next
  case (Cons x xs)
  from Cons.prems obtain y where "f x = Inr y" by auto
  moreover from Cons obtain ys where "py_map f xs = Inr ys" by auto
  ultimately show ?case by simp
qed

lemma rgb_ok_color:
  assumes "3 \<le> length cs" "\<forall>c\<in>set cs. 0 \<le> c \<and> c \<le> (255::int)"
  shows "rgb_ok cs" "rgb_ok (take 3 cs)"
  using assms by (auto simp: rgb_ok_def)

lemma interpolate_channel_ok:
  assumes "3 \<le> length (color s1)" "3 \<le> length (color s2)" "0 \<le> j" "j < 3"
  shows "\<exists>v. interpolate_channel s1 s2 t j = Inr v \<and> 0 \<le> v \<and> v \<le> 255"
proof -
  have "nat j < 3" using assms(3,4) by simp
  with assms show ?thesis
    using clip_range by (simp add: interpolate_channel_def py_getitem_ok Let_def)
qed

lemma interpolate_pairs_ok:
  assumes "xs \<noteq> []" "colors_in_range xs"
  shows "\<exists>col. interpolate_pairs xs pos = Inr col \<and> rgb_ok col"
  using assms
proof (induction xs pos rule: interpolate_pairs.induct)
  case (1 pos)
  then show ?case by simp
next
  case (2 last_stop pos)
  then show ?case by (simp add: colors_in_range_def rgb_ok_color)
next
  case (3 stop1 stop2 rest pos)
  from "3.prems"(2) have r: "3 \<le> length (color stop1)" "3 \<le> length (color stop2)"
    "\<forall>c\<in>set (color stop1). 0 \<le> c \<and> c \<le> 255"
    and rng': "colors_in_range (stop2 # rest)"
    by (simp_all add: colors_in_range_def)
  show ?case
  proof (cases "pos \<le> position stop2")
    case False
    with "3.IH" rng' show ?thesis by simp
  next
    case True
    show ?thesis
    proof (cases "position stop1 = position stop2")
      case True
      with \<open>pos \<le> position stop2\<close> r show ?thesis by (simp add: rgb_ok_color)
    next
      case False
      define t where "t = (pos - position stop1) / (position stop2 - position stop1)"
      from interpolate_channel_ok [OF r(1,2), of 0 t] obtain a
        where a: "interpolate_channel stop1 stop2 t 0 = Inr a" "0 \<le> a" "a \<le> 255" by auto
      from interpolate_channel_ok [OF r(1,2), of 1 t] obtain b
        where b: "interpolate_channel stop1 stop2 t 1 = Inr b" "0 \<le> b" "b \<le> 255" by auto
      from interpolate_channel_ok [OF r(1,2), of 2 t] obtain c
        where c: "interpolate_channel stop1 stop2 t 2 = Inr c" "0 \<le> c" "c \<le> 255" by auto
      have "py_map (interpolate_channel stop1 stop2 t) [0, 1, 2] = Inr [a, b, c]"
        using a(1) b(1) c(1) by simp
      moreover have "rgb_ok [a, b, c]"
        using a b c by (auto simp: rgb_ok_def less_Suc_eq numeral_3_eq_3)
      ultimately show ?thesis
        using True False by (simp add: Let_def t_def)
    qed
  qed
qed

lemma uint8_of_channel: "0 \<le> c \<Longrightarrow> c \<le> 255 \<Longrightarrow> uint (word_of_int c :: uint8) = c"
  by (simp add: uint_word_of_int_eq take_bit_int_eq_self)

lemma lut_entry_ok:
  assumes "interpolate_gradient_color stops_list (luminance k) = Inr col" "rgb_ok col"
  shows "lut_entry stops_list k = Inr [word_of_int (col ! 2), word_of_int (col ! 1), word_of_int (col ! 0)]"
proof -
  from assms(2) have len: "3 \<le> length col"
    and c: "0 \<le> col ! 0" "col ! 0 \<le> 255" "0 \<le> col ! 1" "col ! 1 \<le> 255"
      "0 \<le> col ! 2" "col ! 2 \<le> 255"
    by (simp_all add: rgb_ok_def)
  from len have g: "py_getitem col 2 = Inr (col ! 2)" "py_getitem col 1 = Inr (col ! 1)"
    "py_getitem col 0 = Inr (col ! 0)"
    by (auto simp: py_getitem_def Let_def)
  from c have st: "np_uint8_store (col ! 2) = Inr (word_of_int (col ! 2))"
    "np_uint8_store (col ! 1) = Inr (word_of_int (col ! 1))"
    "np_uint8_store (col ! 0) = Inr (word_of_int (col ! 0))"
    by (simp_all add: np_uint8_store_def)
  show ?thesis by (simp only: lut_entry_def assms(1) g st py_then_Inr)
qed

text \<open>
  C6 (as amended).  For every non-empty stop list with at least three channels per colour,
  all in 0..255 (whatever the positions), the table is built without failure and its row
  \<open>k\<close>, for \<open>k\<close> in 0..255, holds the colour interpolated at \<open>k / 255\<close> in the order blue,
  green, red.
\<close>

theorem lut_is_reversed_interpolation:
  assumes "stops_list \<noteq> []" "colors_in_range stops_list" "0 \<le> k" "k \<le> 255"
  shows "\<exists>col. interpolate_gradient_color stops_list (luminance k) = Inr col \<and>
               3 \<le> length col \<and>
               lut_at stops_list k = Inr [col ! 2, col ! 1, col ! 0]"
proof -
  have ex: "\<And>i. \<exists>col. interpolate_gradient_color stops_list (luminance i) = Inr col \<and> rgb_ok col"
    unfolding interpolate_gradient_color_def by (rule interpolate_pairs_ok [OF assms(1,2)])
  then have "\<And>i. i \<in> set [0..255] \<Longrightarrow> \<exists>row. lut_entry stops_list i = Inr row"
    using lut_entry_ok by blast
  then obtain lut where lut: "build_lut stops_list = Inr lut"
    unfolding build_lut_def using py_map_ok [of "[0..255]" "lut_entry stops_list"] by blast
  from ex obtain col where col: "interpolate_gradient_color stops_list (luminance k) = Inr col"
    "rgb_ok col" by blast
  have len: "length lut = 256"
    using py_map_length [OF lut [unfolded build_lut_def]] by simp
  have k: "nat k < length [0..255]" using assms(3,4) by simp
  have "[0..255] ! nat k = k" using assms(3,4) by (simp add: nth_upto)
  with py_map_nth [OF lut [unfolded build_lut_def] k]
  have "lut_entry stops_list k = Inr (lut ! nat k)" by simp
  with lut_entry_ok [OF col]
  have row: "lut ! nat k = [word_of_int (col ! 2), word_of_int (col ! 1), word_of_int (col ! 0)]"
    by simp
  have "py_getitem lut k = Inr (lut ! nat k)"
    using assms(3,4) len by (intro py_getitem_ok) simp_all
  with lut row col(2) have "lut_at stops_list k = Inr [col ! 2, col ! 1, col ! 0]"
    by (simp add: lut_at_def rgb_ok_def uint8_of_channel)
  with col show ?thesis by (auto simp: rgb_ok_def)
qed

theorem lut_is_reversed_interpolation_witness:
  "three_stops \<noteq> [] \<and> colors_in_range three_stops \<and> (0::int) \<le> 64 \<and> (64::int) \<le> 255 \<and>
   (\<exists>col. interpolate_gradient_color three_stops (luminance 64) = Inr col \<and>
               3 \<le> length col \<and>
               lut_at three_stops 64 = Inr [col ! 2, col ! 1, col ! 0])"
proof -
  have h: "three_stops \<noteq> []" "colors_in_range three_stops" "(0::int) \<le> 64" "(64::int) \<le> 255"
    by (simp_all add: three_stops_def colors_in_range_def)
  from lut_is_reversed_interpolation [OF h] h show ?thesis by blast
qed

text \<open>
  C6 as stated (the row is the interpolated RGB triple) fails: for a single red stop the
  interpolation is (255, 0, 0) and the row is (0, 0, 255).
\<close>

theorem lut_row_is_bgr:
  "lut_at red_stop 0 = Inr [0, 0, 255] \<and>
  interpolate_gradient_color red_stop (luminance 0) = Inr [255, 0, 0]"
  by code_simp

section \<open>A fault during mask generation\<close>

lemma flat_lut_built:
  "generate_current_lut (flat_gradient_system\<lparr>current_gradient_lut := None\<rparr>)
     = Inr flat_gradient_system"
  by code_simp

lemma py_map_zip_fst:
  assumes "length xs = length ys"
    and "\<And>x y. (x, y) \<in> set (zip xs ys) \<Longrightarrow> f (x, y) = Inr (g x)"
  shows "py_map f (zip xs ys) = Inr (map g xs)"
  using assms by (induction xs ys rule: list_induct2) simp_all

lemma map_zip_fst:
  assumes "length xs = length ys"
    and "\<And>x y. (x, y) \<in> set (zip xs ys) \<Longrightarrow> f (x, y) = x"
  shows "map f (zip xs ys) = xs"
  using assms by (induction xs ys rule: list_induct2) simp_all

lemma py_int_of_int: "py_int (of_int n) = n"
  by (simp add: py_int_def)

lemma blend_channel_0:
  "word_of_int (py_int ((1 - 0) * of_int (uint (a::uint8)) + 0 * of_int (uint (b::uint8)))) = a"
proof -
  have "(1 - 0) * (of_int (uint a) :: rat) + 0 * of_int (uint b) = of_int (uint a)"
    by (simp only: diff_zero mult_1 mult_zero_left add_0_right)
  then show ?thesis by (simp only: py_int_of_int word_of_int_uint)
qed

lemma blend_0:
  assumes "length original = length grad"
  shows "blend 0 original grad = original"
  unfolding blend_def blend_channel_0
  using assms by (intro map_zip_fst) simp_all

lemma gradient_pixel_ok:
  assumes "lut_ok lut"
  shows "\<exists>grad. grad \<in> set lut \<and> gradient_pixel lut i_op o_op ((px, g), m)
           = Inr (blend (if m then i_op else o_op) px grad)"
proof -
  define k where "k = np_clip_int (uint g) 0 (int (length lut) - 1)"
  from assms have "0 < length lut" by (simp add: lut_ok_def)
  then have "0 \<le> k" "k < int (length lut)" by (simp_all add: k_def np_clip_int_def)
  then have "0 \<le> k" "nat k < length lut" by simp_all
  then have "py_getitem lut k = Inr (lut ! nat k)" "lut ! nat k \<in> set lut"
    by (simp_all add: py_getitem_def Let_def)
  then show ?thesis by (auto simp: gradient_pixel_def Let_def k_def)
qed

lemma zip_replicate_mem:
  "(x, y) \<in> set (zip xs (replicate n c)) \<Longrightarrow> x \<in> set xs \<and> y = c"
  by (auto dest: set_zip_leftD set_zip_rightD)

lemma invert_rows_all_false:
  assumes "\<forall>row\<in>set fr. length row = w"
  shows "map invert_row (zip fr (np_zeros (length fr) w)) = fr"
  unfolding np_zeros_def
proof (rule map_zip_fst)
  show "length fr = length (replicate (length fr) (replicate w False))" by simp
  fix row z assume "(row, z) \<in> set (zip fr (replicate (length fr) (replicate w False)))"
  then have row: "row \<in> set fr" and z: "z = replicate w False"
    using zip_replicate_mem by fastforce+
  with assms have len: "length row = length (replicate w False)" by simp
  have "map invert_pixel (zip row (replicate w False)) = row"
    using len
  proof (rule map_zip_fst)
    fix px m assume "(px, m) \<in> set (zip row (replicate w False))"
    then have "m = False" using zip_replicate_mem by fastforce
    then show "invert_pixel (px, m) = px" by (simp add: invert_pixel_def)
  qed
  then show "invert_row (row, z) = row" by (simp add: invert_row_def z)
qed

lemma gradient_row_total:
  assumes "lut_ok lut"
  shows "\<exists>out. gradient_row lut i_op o_op rgm = Inr out"
  unfolding gradient_row_def
proof (rule py_map_ok)
  fix pgm :: "(pixel \<times> uint8) \<times> bool"
  obtain px g m where "pgm = ((px, g), m)" by (metis surj_pair)
  with gradient_pixel_ok [OF assms, of i_op o_op px g m]
  show "\<exists>y. gradient_pixel lut i_op o_op pgm = Inr y" by auto
qed

lemma gradient_row_unchanged:
  assumes lut: "lut_ok lut" and len: "length row = w" "length grow = w"
    and px: "\<forall>px\<in>set row. length px = 3"
  shows "gradient_row lut i_op 0 ((row, grow), replicate w False) = Inr row"
proof -
  have "py_map (gradient_pixel lut i_op 0) (zip (zip row grow) (replicate w False))
      = Inr (map fst (zip row grow))"
  proof (rule py_map_zip_fst)
    show "length (zip row grow) = length (replicate w False)" using len by simp
    fix pg m assume mem: "(pg, m) \<in> set (zip (zip row grow) (replicate w False))"
    then have m: "m = False" and pg: "pg \<in> set (zip row grow)"
      using zip_replicate_mem by fastforce+
    obtain p g where pge: "pg = (p, g)" by (cases pg)
    with pg have "p \<in> set row" by (auto dest: set_zip_leftD)
    with px have p3: "length p = 3" by simp
    from gradient_pixel_ok [OF lut, of i_op 0 p g False] obtain grad
      where grad: "grad \<in> set lut" "gradient_pixel lut i_op 0 ((p, g), False) = Inr (blend 0 p grad)"
      by auto
    from grad(1) lut have "length grad = 3" by (simp add: lut_ok_def)
    with p3 have "blend 0 p grad = p" by (intro blend_0) simp
    with grad(2) m pge show "gradient_pixel lut i_op 0 (pg, m) = Inr (fst pg)" by simp
  qed
  also have "map fst (zip row grow) = row" using len by simp
  finally show ?thesis by (simp add: gradient_row_def)
qed

lemma gradient_rows_unchanged:
  assumes lut: "lut_ok lut" and ok: "frame_ok fr gray"
  shows "py_map (gradient_row lut i_op 0) (zip (zip fr gray) (np_zeros (length fr) (snd (shape fr))))
           = Inr fr"
proof -
  let ?w = "snd (shape fr)"
  have "py_map (gradient_row lut i_op 0) (zip (zip fr gray) (replicate (length fr) (replicate ?w False)))
      = Inr (map fst (zip fr gray))"
  proof (rule py_map_zip_fst)
    show "length (zip fr gray) = length (replicate (length fr) (replicate ?w False))"
      using ok by (simp add: frame_ok_def)
    fix rg z assume "(rg, z) \<in> set (zip (zip fr gray) (replicate (length fr) (replicate ?w False)))"
    then have z: "z = replicate ?w False" and rg: "rg \<in> set (zip fr gray)"
      using zip_replicate_mem by fastforce+
    obtain row grow where rge: "rg = (row, grow)" by (cases rg)
    with rg have "row \<in> set fr" "grow \<in> set gray" by (auto dest: set_zip_leftD set_zip_rightD)
    with ok have "length row = ?w" "length grow = ?w" "\<forall>px\<in>set row. length px = 3"
      by (simp_all add: frame_ok_def)
    from gradient_row_unchanged [OF lut this] rge z
    show "gradient_row lut i_op 0 (rg, z) = Inr (fst rg)" by simp
  qed
  also have "map fst (zip fr gray) = fr" using ok by (simp add: frame_ok_def)
  finally show ?thesis by (simp add: np_zeros_def)
qed

lemma shape_fst: "fst (shape fr) = length fr"
  by (simp add: shape_def)

text \<open>
  C7 (as amended).  When the \<open>try\<close> block of the mask generation raises, \<open>process_frame\<close>
  returns a frame and raises nothing: the handler installs the all-false mask and the frame
  is composited under it.  This is for a rectangular three-channel frame with its luminance
  plane and, when a gradient table is loaded, a non-empty table of three-channel rows.  The
  frame is returned unmodified when no gradient table is loaded or when the opacity is 100
  or -100.
\<close>

theorem mask_fault_fails_open:
  assumes act: "active s"
    and ok: "frame_ok fr gray"
    and lut: "\<forall>lut. current_gradient_lut (gradient_system s) = Some lut \<longrightarrow> lut_ok lut"
    and fault: "mask_direct_try fault (shape fr)
                  (((global_frame_counter s + 1) * time_multiplier s) mod pixel_width s)
                  (pixel_width s) ((global_frame_counter s + 1) * time_multiplier s)
                  (s\<lparr>global_frame_counter := global_frame_counter s + 1\<rparr>) = Inl e"
  shows "\<exists>result s'. process_frame fault gray (Some fr) s = Inr (Some result, s') \<and>
           invert_mask s' = Some (np_zeros (length fr) (snd (shape fr))) \<and>
           (current_gradient_lut (gradient_system s) = None \<or> \<bar>gradient_opacity s\<bar> = 100
              \<longrightarrow> result = fr)"
proof -
  define s1 where "s1 = s\<lparr>global_frame_counter := global_frame_counter s + 1\<rparr>"
  define clock where "clock = (global_frame_counter s + 1) * time_multiplier s"
  define s2 where "s2 = s1\<lparr>invert_mask := Some (np_zeros (length fr) (snd (shape fr))),
                            cached_frame_size := Some (shape fr)\<rparr>"
  have p: "pixel_width s \<noteq> 0"
  proof
    assume "pixel_width s = 0"
    with fault show False by (simp add: mask_direct_try_def Let_def)
  qed
  have gen: "generate_ki_alternate_mask_direct fault (shape fr) (clock mod pixel_width s)
               (pixel_width s) clock s1 = s2"
    using fault by (simp add: generate_ki_alternate_mask_direct_def s1_def clock_def s2_def shape_fst)
  have wf: "\<forall>row\<in>set fr. length row = snd (shape fr)" using ok by (simp add: frame_ok_def)
  show ?thesis
  proof (cases "current_gradient_lut (gradient_system s)")
    case None
    then have "process_frame fault gray (Some fr) s
        = Inr (Some (map invert_row (zip fr (np_zeros (length fr) (snd (shape fr))))), s2)"
      using act p gen
      by (simp add: process_frame_def py_mod_def Let_def s1_def [symmetric] clock_def [symmetric],
          simp add: s1_def s2_def clock_def)
    with invert_rows_all_false [OF wf] show ?thesis by (simp add: s2_def)
  next
    case (Some lt)
    with lut have lok: "lut_ok lt" by simp
    define i_op :: rat where "i_op = of_int \<bar>gradient_opacity s\<bar> / 100"
    define o_op :: rat where "o_op = of_int (100 - \<bar>gradient_opacity s\<bar>) / 100"
    have "\<exists>out. py_map (gradient_row lt i_op o_op)
                   (zip (zip fr gray) (np_zeros (length fr) (snd (shape fr)))) = Inr out"
      using gradient_row_total [OF lok] by (intro py_map_ok) blast
    then obtain out where out: "py_map (gradient_row lt i_op o_op)
                   (zip (zip fr gray) (np_zeros (length fr) (snd (shape fr)))) = Inr out" ..
    have pf: "process_frame fault gray (Some fr) s = Inr (Some out, s2)"
      using act p gen Some out
      by (simp add: process_frame_def py_mod_def Let_def s1_def [symmetric] clock_def [symmetric],
          simp add: s1_def s2_def clock_def i_op_def o_op_def)
    have "out = fr" if "\<bar>gradient_opacity s\<bar> = 100"
    proof -
      from that have "o_op = 0" by (simp add: o_op_def)
      with out gradient_rows_unchanged [OF lok ok, of i_op] show ?thesis by simp
    qed
    with pf Some show ?thesis by (simp add: s2_def)
  qed
qed

theorem mask_fault_fails_open_witness:
  "active (ki_alt_init flat_gradient_system) \<and> frame_ok red_frame [[76, 76]] \<and>
   current_gradient_lut (gradient_system (ki_alt_init flat_gradient_system))
     = Some (replicate 256 [10, 20, 30]) \<and>
   lut_ok (replicate 256 [10, 20, 30]) \<and>
   mask_direct_try (Some MemoryError) (shape red_frame)
     (((global_frame_counter (ki_alt_init flat_gradient_system) + 1)
        * time_multiplier (ki_alt_init flat_gradient_system))
       mod pixel_width (ki_alt_init flat_gradient_system))
     (pixel_width (ki_alt_init flat_gradient_system))
     ((global_frame_counter (ki_alt_init flat_gradient_system) + 1)
        * time_multiplier (ki_alt_init flat_gradient_system))
     ((ki_alt_init flat_gradient_system)
        \<lparr>global_frame_counter := global_frame_counter (ki_alt_init flat_gradient_system) + 1\<rparr>)
     = Inl MemoryError \<and>
   (\<exists>result s'. process_frame (Some MemoryError) [[76, 76]] (Some red_frame)
                   (ki_alt_init flat_gradient_system) = Inr (Some result, s') \<and>
        invert_mask s' = Some (np_zeros (length red_frame) (snd (shape red_frame))) \<and>
        result = red_frame)"
proof -
  have h1: "active (ki_alt_init flat_gradient_system)" by (simp add: ki_alt_init_def)
  have h2: "frame_ok red_frame [[76, 76]]"
    by (simp add: frame_ok_def red_frame_def shape_def)
  have h3: "\<forall>lut. current_gradient_lut (gradient_system (ki_alt_init flat_gradient_system)) = Some lut
           \<longrightarrow> lut_ok lut"
    by (simp add: ki_alt_init_def flat_gradient_system_def lut_ok_def)
  have h4: "mask_direct_try (Some MemoryError) (shape red_frame)
     (((global_frame_counter (ki_alt_init flat_gradient_system) + 1)
        * time_multiplier (ki_alt_init flat_gradient_system))
       mod pixel_width (ki_alt_init flat_gradient_system))
     (pixel_width (ki_alt_init flat_gradient_system))
     ((global_frame_counter (ki_alt_init flat_gradient_system) + 1)
        * time_multiplier (ki_alt_init flat_gradient_system))
     ((ki_alt_init flat_gradient_system)
        \<lparr>global_frame_counter := global_frame_counter (ki_alt_init flat_gradient_system) + 1\<rparr>)
     = Inl MemoryError"
    by (simp add: mask_direct_try_def ki_alt_init_def np_meshgrid_def Let_def)
  have h5: "\<bar>gradient_opacity (ki_alt_init flat_gradient_system)\<bar> = 100"
    by (simp add: ki_alt_init_def)
  have h6: "current_gradient_lut (gradient_system (ki_alt_init flat_gradient_system))
     = Some (replicate 256 [10, 20, 30])" "lut_ok (replicate 256 [10, 20, 30])"
    by (simp_all add: ki_alt_init_def flat_gradient_system_def lut_ok_def)
  from mask_fault_fails_open [OF h1 h2 h3 h4] h5 h1 h2 h4 h6 show ?thesis by blast
qed

text \<open>
  C7 as stated (the input frame comes back unmodified) fails once the opacity has been
  moved: at opacity 0 every pixel counts as an O pixel and receives its gradient colour at
  full strength.
\<close>

theorem mask_fault_frame_modified:
  "mask_direct_try (Some MemoryError) (shape black_frame) (1 mod 19) 19 1
     ((ki_alt_init flat_gradient_system)\<lparr>gradient_opacity := 0, global_frame_counter := 1\<rparr>)
     = Inl MemoryError \<and>
   map_sum id fst
     (process_frame (Some MemoryError) [[0]] (Some black_frame)
        ((ki_alt_init flat_gradient_system)\<lparr>gradient_opacity := 0\<rparr>))
     = Inr (Some [[[10, 20, 30]]])"
  by code_simp

section \<open>Properties of the control surface\<close>

lemma width_inv_init: "width_inv (ki_alt_init gs)"
  by (simp add: width_inv_def ki_alt_init_def)

lemma width_inv_arrow:
  assumes "width_inv s" "key = 0 \<or> key = 1"
  shows "\<exists>s'. handle_key_press key s = Inr (True, s') \<and> width_inv s'"
proof -
  from assms(1) have b: "min_pixel_width s = 9" "max_pixel_width s = 199"
    "pixel_width s mod 10 = 9" "9 \<le> pixel_width s" "pixel_width s \<le> 199"
    by (simp_all add: width_inv_def)
  from assms(2) show ?thesis
  proof
    assume "key = 0"
    then show ?thesis using b
      by (auto simp: handle_key_press_def set_parameter_def width_inv_def Let_def min_def max_def)
  next
    assume "key = 1"
    then show ?thesis using b
      by (auto simp: handle_key_press_def set_parameter_def width_inv_def Let_def min_def max_def)
  qed
qed

lemma press_arrows:
  "width_inv s \<Longrightarrow> set ks \<subseteq> {0, 1} \<Longrightarrow> \<exists>s'. press_keys ks s = Inr s' \<and> width_inv s'"
proof (induction ks arbitrary: s)
  case Nil
  then show ?case by simp
next
  case (Cons k ks)
  then have "k = 0 \<or> k = 1" by auto
  with Cons.prems(1) obtain s1 where s1: "handle_key_press k s = Inr (True, s1)" "width_inv s1"
    using width_inv_arrow by blast
  from Cons.prems(2) have "set ks \<subseteq> {0, 1}" by auto
  with Cons.IH [OF s1(2)] obtain s' where "press_keys ks s1 = Inr s'" "width_inv s'" by blast
  with s1 show ?case by simp
qed

lemma width_inv_odd: "width_inv s \<Longrightarrow> odd (pixel_width s) \<and> 0 < (pixel_width s - 1) div 2"
  unfolding width_inv_def by presburger

lemma opacity_inv_key:
  "opacity_inv s \<Longrightarrow> key = 93 \<or> key = 91 \<Longrightarrow>
     \<exists>s'. handle_key_press key s = Inr (True, s') \<and> opacity_inv s'"
  by (auto simp: handle_key_press_def opacity_inv_def Let_def)

lemma press_opacity:
  "opacity_inv s \<Longrightarrow> set ks \<subseteq> {93, 91} \<Longrightarrow> \<exists>s'. press_keys ks s = Inr s' \<and> opacity_inv s'"
proof (induction ks arbitrary: s)
  case Nil
  then show ?case by simp
next
  case (Cons k ks)
  then have "k = 93 \<or> k = 91" by auto
  with Cons.prems(1) obtain s1 where s1: "handle_key_press k s = Inr (True, s1)" "opacity_inv s1"
    using opacity_inv_key by blast
  from Cons.prems(2) have "set ks \<subseteq> {93, 91}" by auto
  with Cons.IH [OF s1(2)] obtain s' where "press_keys ks s1 = Inr s'" "opacity_inv s'" by blast
  with s1 show ?case by simp
qed

text \<open>
  C9.  Opacity wrap law: pressing \<open>]\<close> at opacity 100 gives -100, pressing \<open>[\<close> at -100
  gives 100, and after any sequence of \<open>]\<close> / \<open>[\<close> presses on a fresh effect instance
  the opacity lies in [-100, 100].
\<close>

theorem opacity_wrap_law:
  "(gradient_opacity s = 100 \<longrightarrow>
      (\<exists>s'. handle_key_press 93 s = Inr (True, s') \<and> gradient_opacity s' = - 100)) \<and>
   (gradient_opacity s = - 100 \<longrightarrow>
      (\<exists>s'. handle_key_press 91 s = Inr (True, s') \<and> gradient_opacity s' = 100)) \<and>
   (set ks \<subseteq> {93, 91} \<longrightarrow>
      (\<exists>s'. press_keys ks (ki_alt_init gs) = Inr s' \<and>
            - 100 \<le> gradient_opacity s' \<and> gradient_opacity s' \<le> 100))"
proof (intro conjI impI)
  assume "gradient_opacity s = 100"
  then show "\<exists>s'. handle_key_press 93 s = Inr (True, s') \<and> gradient_opacity s' = - 100"
    by (simp add: handle_key_press_def)
next
  assume "gradient_opacity s = - 100"
  then show "\<exists>s'. handle_key_press 91 s = Inr (True, s') \<and> gradient_opacity s' = 100"
    by (simp add: handle_key_press_def)
next
  assume "set ks \<subseteq> {93, 91}"
  moreover have "opacity_inv (ki_alt_init gs)"
    by (simp add: opacity_inv_def ki_alt_init_def)
  ultimately show "\<exists>s'. press_keys ks (ki_alt_init gs) = Inr s' \<and>
            - 100 \<le> gradient_opacity s' \<and> gradient_opacity s' \<le> 100"
    using press_opacity unfolding opacity_inv_def by blast
qed

theorem opacity_wrap_law_witness:
  "gradient_opacity (ki_alt_init no_gradients) = 100 \<and>
   (\<exists>s'. handle_key_press 93 (ki_alt_init no_gradients) = Inr (True, s') \<and>
         gradient_opacity s' = - 100) \<and>
   gradient_opacity (ki_alt_init no_gradients\<lparr>gradient_opacity := - 100\<rparr>) = - 100 \<and>
   (\<exists>s'. handle_key_press 91 (ki_alt_init no_gradients\<lparr>gradient_opacity := - 100\<rparr>)
           = Inr (True, s') \<and> gradient_opacity s' = 100) \<and>
   set [93, 93, 91] \<subseteq> {93, 91::int} \<and>
   (\<exists>s'. press_keys [93, 93, 91] (ki_alt_init no_gradients) = Inr s' \<and>
            - 100 \<le> gradient_opacity s' \<and> gradient_opacity s' \<le> 100)"
  using opacity_wrap_law [of "ki_alt_init no_gradients" "[93, 93, 91]" no_gradients]
    opacity_wrap_law [of "ki_alt_init no_gradients\<lparr>gradient_opacity := - 100\<rparr>" "[]" no_gradients]
  by (simp add: ki_alt_init_def)

text \<open>
  C10.  Starting from the default pitch 19, any sequence of up/down arrow presses leaves
  \<open>pixel_width\<close> odd and inside [9, 199], so that \<open>q = (p - 1) // 2\<close> is positive.
\<close>

theorem pixel_width_stays_odd:
  "set ks \<subseteq> {0, 1} \<Longrightarrow>
     \<exists>s'. press_keys ks (ki_alt_init gs) = Inr s' \<and> odd (pixel_width s') \<and>
          9 \<le> pixel_width s' \<and> pixel_width s' \<le> 199 \<and> 0 < (pixel_width s' - 1) div 2"
proof -
  assume "set ks \<subseteq> {0, 1}"
  with width_inv_init obtain s' where s': "press_keys ks (ki_alt_init gs) = Inr s'" "width_inv s'"
    using press_arrows by blast
  from s'(2) have "9 \<le> pixel_width s'" "pixel_width s' \<le> 199" by (simp_all add: width_inv_def)
  with s' width_inv_odd [OF s'(2)] show ?thesis by blast
qed

theorem pixel_width_stays_odd_witness:
  "set [0, 1, 1, 0] \<subseteq> {0, 1::int} \<and>
     (\<exists>s'. press_keys [0, 1, 1, 0] (ki_alt_init no_gradients) = Inr s' \<and> odd (pixel_width s') \<and>
          9 \<le> pixel_width s' \<and> pixel_width s' \<le> 199 \<and> 0 < (pixel_width s' - 1) div 2)"
  using pixel_width_stays_odd [of "[0, 1, 1, 0]" no_gradients] by simp

end
